theory Spec2Isabelle
  imports Main "HOL-Library.Word" "HOL-Library.List_Lexorder"
begin

unbundle bit_operations_syntax

section \<open>Bytes, slices and errors\<close>

text \<open>
  A Go \<^verbatim>\<open>[]byte\<close> is a list of 8-bit words. Keys are compared by \<^verbatim>\<open>bytes.Compare\<close>,
  the lexicographic order on unsigned bytes in which a proper prefix is smaller; this is
  the order \<open>(<)\<close> of \<^verbatim>\<open>HOL-Library.List_Lexorder\<close> on \<open>8 word list\<close>.

  Go distinguishes the \<^verbatim>\<open>nil\<close> slice from an allocated slice of length 0, and
  \<^verbatim>\<open>readBytes\<close> returns both, so a slice that may be \<^verbatim>\<open>nil\<close> is a \<open>bytes option\<close>:
  \<open>None\<close> is \<^verbatim>\<open>nil\<close>. \<^verbatim>\<open>len\<close> is 0 on both.
\<close>

type_synonym byte = "8 word"
type_synonym bytes = "byte list"
type_synonym slice = "bytes option"

fun len :: "slice \<Rightarrow> nat" where
  "len None = 0"
| "len (Some b) = length b"

fun slice_bytes :: "slice \<Rightarrow> bytes" where
  "slice_bytes None = []"
| "slice_bytes (Some b) = b"

text \<open>
  The error values of the code: \<^verbatim>\<open>io.EOF\<close>, the package variable \<^verbatim>\<open>ErrNoMetadata\<close>,
  the three \<^verbatim>\<open>fmt.Errorf\<close> format errors of \<^verbatim>\<open>ApplySnapshot\<close> (carrying their message),
  \<^verbatim>\<open>pebble.ErrNotFound\<close>, the panics of \<^verbatim>\<open>protoc.MustUnmarshal\<close> and
  \<^verbatim>\<open>buf.Byte2UInt64\<close>, and the errors that the store and the filesystem hand back.
\<close>

datatype error =
    EOF
  | ErrNoMetadata
  | ErrNotFound
  | FormatError string
  | StoreError
  | FsError
  | IterError
  | Panic

section \<open>The virtual file\<close>

text \<open>
  Modelled from the spec: the type \<^verbatim>\<open>vfs.File\<close> is declared outside the sources at
  hand. The spec (section 6) asks of it blocking \<^verbatim>\<open>read\<close>/\<^verbatim>\<open>write\<close> "that may return
  short counts", and section 7 lists read and write among the filesystem errors.

  A file opened for reading is the bytes not yet consumed, together with a schedule that
  fixes the behaviour of the next \<^verbatim>\<open>Read\<close> calls: \<open>Deliver k\<close> hands over at most \<open>k\<close>
  bytes (a short count when \<open>k\<close> is below the buffer length), \<open>Fault\<close> is an I/O error.
  When the schedule is used up every \<^verbatim>\<open>Read\<close> fills the buffer as far as the file has
  bytes. At the end of the file \<^verbatim>\<open>Read\<close> returns \<^verbatim>\<open>(0, io.EOF)\<close>.
\<close>

datatype read_step = Deliver nat | Fault

record rfile =
  rdata :: bytes
  rsched :: "read_step list"

definition file_Read :: "rfile \<Rightarrow> nat \<Rightarrow> bytes \<times> error option \<times> rfile" where
  "file_Read f n =
     (case rsched f of
        [] \<Rightarrow>
          (if rdata f = [] then ([], Some EOF, f)
           else (take n (rdata f), None, f\<lparr>rdata := drop n (rdata f)\<rparr>))
      | Fault # sch \<Rightarrow> ([], Some FsError, f\<lparr>rsched := sch\<rparr>)
      | Deliver k # sch \<Rightarrow>
          (if rdata f = [] then ([], Some EOF, f\<lparr>rsched := sch\<rparr>)
           else (take (min k n) (rdata f), None,
                 f\<lparr>rdata := drop (min k n) (rdata f), rsched := sch\<rparr>)))"

text \<open>A file that never returns a short count and never fails.\<close>

definition reliable :: "bytes \<Rightarrow> rfile" where
  "reliable bs = \<lparr>rdata = bs, rsched = []\<rparr>"

text \<open>
  A file opened for writing is the bytes written so far and a schedule for the next
  \<^verbatim>\<open>Write\<close> calls: \<open>None\<close> writes the whole buffer, \<open>Some k\<close> writes \<open>k\<close> bytes of it
  and fails. When the schedule is used up every \<^verbatim>\<open>Write\<close> succeeds.
\<close>

record wfile =
  wdata :: bytes
  wsched :: "nat option list"

definition file_Write :: "wfile \<Rightarrow> bytes \<Rightarrow> error option \<times> wfile" where
  "file_Write f p =
     (case wsched f of
        [] \<Rightarrow> (None, f\<lparr>wdata := wdata f @ p\<rparr>)
      | None # sch \<Rightarrow> (None, f\<lparr>wdata := wdata f @ p, wsched := sch\<rparr>)
      | Some k # sch \<Rightarrow> (Some FsError, f\<lparr>wdata := wdata f @ take k p, wsched := sch\<rparr>))"

section \<open>The framed byte codec\<close>

text \<open>\<^verbatim>\<open>binary.BigEndian.PutUint32\<close> and \<^verbatim>\<open>binary.BigEndian.Uint32\<close> on a 4-byte buffer.\<close>

definition PutUint32 :: "32 word \<Rightarrow> bytes" where
  "PutUint32 v =
     [ucast (drop_bit 24 v), ucast (drop_bit 16 v), ucast (drop_bit 8 v), ucast v]"

fun Uint32 :: "bytes \<Rightarrow> 32 word" where
  "Uint32 (b0 # b1 # b2 # b3 # _) =
     (push_bit 24 (ucast b0) OR push_bit 16 (ucast b1) OR push_bit 8 (ucast b2) OR ucast b3)"
| "Uint32 _ = 0"

text \<open>
  \<^verbatim>\<open>writeBytes\<close>: the length, converted to \<^verbatim>\<open>uint32\<close>, as 4 big-endian bytes, then the
  data; the first failing \<^verbatim>\<open>Write\<close> is returned.
\<close>

definition writeBytes :: "wfile \<Rightarrow> bytes \<Rightarrow> error option \<times> wfile" where
  "writeBytes f data =
     (let size = PutUint32 (word_of_nat (length data)) in
      case file_Write f size of
        (Some err, f1) \<Rightarrow> (Some err, f1)
      | (None, f1) \<Rightarrow>
          (case file_Write f1 data of
             (Some err, f2) \<Rightarrow> (Some err, f2)
           | (None, f2) \<Rightarrow> (None, f2)))"

text \<open>
  The payload loop of \<^verbatim>\<open>readBytes\<close>. \<open>data\<close> holds the \<^verbatim>\<open>written\<close> bytes read so far,
  so \<^verbatim>\<open>data[written:]\<close> is a buffer of \<open>tot - length data\<close> bytes. An error other than
  \<^verbatim>\<open>io.EOF\<close> is returned; \<^verbatim>\<open>io.EOF\<close> is not, and the loop has no other exit than
  \<^verbatim>\<open>written == total\<close>: the function is partial, \<open>None\<close> is the run that never returns.
  \<open>fatal err\<close> is the test \<^verbatim>\<open>err != nil && err != io.EOF\<close>.
\<close>

definition fatal :: "error option \<Rightarrow> error option" where
  "fatal err = (case err of None \<Rightarrow> None | Some e \<Rightarrow> if e = EOF then None else Some e)"

partial_function (option) readBytes_loop ::
  "rfile \<Rightarrow> nat \<Rightarrow> bytes \<Rightarrow> ((error + bytes) \<times> rfile) option" where
  "readBytes_loop f tot data =
     (case file_Read f (tot - length data) of
        (got, err, f1) \<Rightarrow>
          (case fatal err of
             Some e \<Rightarrow> Some (Inl e, f1)
           | None \<Rightarrow>
               if length (data @ got) = tot then Some (Inr (data @ got), f1)
               else readBytes_loop f1 tot (data @ got)))"

text \<open>
  \<^verbatim>\<open>readBytes\<close>: one \<^verbatim>\<open>Read\<close> into the 4-byte buffer \<^verbatim>\<open>size\<close> (zero-filled by
  \<^verbatim>\<open>make\<close>, so the bytes not delivered stay 0); \<^verbatim>\<open>nil, nil\<close> when that call returned
  \<^verbatim>\<open>(0, io.EOF)\<close>; otherwise the buffer is decoded, whatever the call returned, and the
  payload loop runs.
\<close>

definition readBytes :: "rfile \<Rightarrow> ((error + slice) \<times> rfile) option" where
  "readBytes f =
     (case file_Read f 4 of
        (got, err, f1) \<Rightarrow>
          (if length got = 0 \<and> err = Some EOF then Some (Inr None, f1)
           else
             (let size = got @ replicate (4 - length got) 0;
                  tot = unat (Uint32 size)
              in case readBytes_loop f1 tot [] of
                   None \<Rightarrow> None
                 | Some (Inl e, f2) \<Rightarrow> Some (Inl e, f2)
                 | Some (Inr data, f2) \<Rightarrow> Some (Inr (Some data), f2))))"

section \<open>The key-value store\<close>

text \<open>
  Modelled from the spec: the interface \<^verbatim>\<open>storage.KVStorage\<close> and the pebble snapshot
  and iterator behind \<^verbatim>\<open>view.Raw()\<close> are declared outside the sources at hand. Section 4.C
  of the spec gives their contract: an ordered store, \<^verbatim>\<open>set\<close>, \<^verbatim>\<open>range_delete\<close> "of all
  keys in \<open>[start, end)\<close>", \<^verbatim>\<open>scan\<close> as "ascending iteration" whose handler "returns
  (continue, error)", \<^verbatim>\<open>get_view\<close> as a "point-in-time read view" with "bounded iteration
  and point get", and \<^verbatim>\<open>sync\<close>.

  The store is its entries in ascending key order, the log of the mutating operations
  issued to it, and what decides the failures: one flag per coming mutating operation
  (\<open>True\<close>: that call returns an error and changes nothing), the number of entries after
  which a scan fails, and the error that an iterator reports while it is valid.
\<close>

type_synonym entry = "bytes \<times> bytes"

datatype kvop =
    OpRangeDelete bytes bytes bool
  | OpSet bytes bytes bool
  | OpSync

record kvstore =
  entries :: "entry list"
  oplog :: "kvop list"
  faults :: "bool list"
  scan_fault :: "nat option"
  iter_fault :: "error option"

fun kv_insert :: "bytes \<Rightarrow> bytes \<Rightarrow> entry list \<Rightarrow> entry list" where
  "kv_insert k v [] = [(k, v)]"
| "kv_insert k v ((k', v') # es) =
     (if k < k' then (k, v) # (k', v') # es
      else if k = k' then (k, v) # es
      else (k', v') # kv_insert k v es)"

definition issue :: "kvop \<Rightarrow> kvstore \<Rightarrow> bool \<times> kvstore" where
  "issue oper s =
     (case faults s of
        [] \<Rightarrow> (False, s\<lparr>oplog := oplog s @ [oper]\<rparr>)
      | b # bs \<Rightarrow> (b, s\<lparr>oplog := oplog s @ [oper], faults := bs\<rparr>))"

definition kv_Set :: "kvstore \<Rightarrow> bytes \<Rightarrow> bytes \<Rightarrow> bool \<Rightarrow> error option \<times> kvstore" where
  "kv_Set s k v sync =
     (case issue (OpSet k v sync) s of
        (True, s1) \<Rightarrow> (Some StoreError, s1)
      | (False, s1) \<Rightarrow> (None, s1\<lparr>entries := kv_insert k v (entries s1)\<rparr>))"

definition kv_RangeDelete ::
  "kvstore \<Rightarrow> bytes \<Rightarrow> bytes \<Rightarrow> bool \<Rightarrow> error option \<times> kvstore" where
  "kv_RangeDelete s a b sync =
     (case issue (OpRangeDelete a b sync) s of
        (True, s1) \<Rightarrow> (Some StoreError, s1)
      | (False, s1) \<Rightarrow>
          (None, s1\<lparr>entries := filter (\<lambda>(k, v). \<not> (a \<le> k \<and> k < b)) (entries s1)\<rparr>))"

definition kv_Sync :: "kvstore \<Rightarrow> error option \<times> kvstore" where
  "kv_Sync s =
     (case issue OpSync s of
        (True, s1) \<Rightarrow> (Some StoreError, s1)
      | (False, s1) \<Rightarrow> (None, s1))"

text \<open>
  Bounds: a \<^verbatim>\<open>nil\<close> bound is no bound, as in \<^verbatim>\<open>pebble.IterOptions\<close>; the lower bound is
  inclusive and the upper bound exclusive.
\<close>

record IterOptions =
  LowerBound :: slice
  UpperBound :: slice

definition within :: "IterOptions \<Rightarrow> bytes \<Rightarrow> bool" where
  "within ios k =
     ((case LowerBound ios of None \<Rightarrow> True | Some lo \<Rightarrow> lo \<le> k) \<and>
      (case UpperBound ios of None \<Rightarrow> True | Some hi \<Rightarrow> k < hi))"

text \<open>
  The bounds of a range \<open>[start, end)\<close> in which an empty end is unbounded: a bound is set
  only when it is not empty (lines 243 to 249 of the source do this for the snapshot
  iterator; the scan of the store is modelled the same way).
\<close>

definition range_bounds :: "bytes \<Rightarrow> bytes \<Rightarrow> IterOptions" where
  "range_bounds start end' =
     \<lparr>LowerBound = (if length start > 0 then Some start else None),
      UpperBound = (if length end' > 0 then Some end' else None)\<rparr>"

text \<open>
  \<^verbatim>\<open>Scan\<close>: the handler is a function on the state of the variables its closure captures.
  It is called on the entries of the range in ascending order, until it returns an
  error or \<^verbatim>\<open>false\<close>, or the scan itself fails.
\<close>

fun scan_loop ::
  "(bytes \<Rightarrow> bytes \<Rightarrow> 'st \<Rightarrow> (bool \<times> error option) \<times> 'st) \<Rightarrow> entry list \<Rightarrow> nat option \<Rightarrow> 'st
     \<Rightarrow> error option \<times> 'st" where
  "scan_loop h es (Some 0) st = (Some StoreError, st)"
| "scan_loop h [] fault st = (None, st)"
| "scan_loop h ((k, v) # es) fault st =
     (case h k v st of
        ((c, Some err), st1) \<Rightarrow> (Some err, st1)
      | ((False, None), st1) \<Rightarrow> (None, st1)
      | ((True, None), st1) \<Rightarrow> scan_loop h es (map_option (\<lambda>n. n - 1) fault) st1)"

definition kv_Scan ::
  "kvstore \<Rightarrow> bytes \<Rightarrow> bytes \<Rightarrow> (bytes \<Rightarrow> bytes \<Rightarrow> 'st \<Rightarrow> (bool \<times> error option) \<times> 'st) \<Rightarrow> 'st
     \<Rightarrow> error option \<times> 'st" where
  "kv_Scan s start end' h st =
     scan_loop h (filter (\<lambda>(k, v). within (range_bounds start end') k) (entries s))
       (scan_fault s) st"

text \<open>
  The view: the entries at the moment \<^verbatim>\<open>GetView\<close> was called. \<^verbatim>\<open>Get\<close> on a pebble
  snapshot returns \<^verbatim>\<open>pebble.ErrNotFound\<close> for an absent key. An iterator is the entries
  within its bounds that are still ahead: \<^verbatim>\<open>Valid\<close> is "not empty", \<^verbatim>\<open>Key\<close> and
  \<^verbatim>\<open>Value\<close> read the head, \<^verbatim>\<open>Next\<close> drops it.
\<close>

record snapshot =
  sn_entries :: "entry list"
  sn_iter_fault :: "error option"

definition GetView :: "kvstore \<Rightarrow> snapshot" where
  "GetView s = \<lparr>sn_entries = entries s, sn_iter_fault = iter_fault s\<rparr>"

definition snap_Get :: "snapshot \<Rightarrow> bytes \<Rightarrow> error + bytes" where
  "snap_Get ss key =
     (case map_of (sn_entries ss) key of None \<Rightarrow> Inl ErrNotFound | Some v \<Rightarrow> Inr v)"

definition snap_NewIter :: "snapshot \<Rightarrow> IterOptions \<Rightarrow> entry list" where
  "snap_NewIter ss ios = filter (\<lambda>(k, v). within ios k) (sn_entries ss)"

section \<open>The split planner\<close>

text \<open>
  The variables that the handler of \<^verbatim>\<open>SplitCheck\<close> captures. The three counters are
  \<^verbatim>\<open>uint64\<close>; \<^verbatim>\<open>splitKeys\<close> is a slice of keys.
\<close>

record split_vars =
  sp_total :: "64 word"
  sp_keys :: "64 word"
  sp_sum :: "64 word"
  appendSplitKey :: bool
  splitKeys :: "bytes list"

definition split_init :: split_vars where
  "split_init =
     \<lparr>sp_total = 0, sp_keys = 0, sp_sum = 0, appendSplitKey = False, splitKeys = []\<rparr>"

definition split_handler ::
  "64 word \<Rightarrow> bytes \<Rightarrow> bytes \<Rightarrow> split_vars \<Rightarrow> (bool \<times> error option) \<times> split_vars" where
  "split_handler size' key val st =
     (let st1 = (if appendSplitKey st
                 then st\<lparr>splitKeys := splitKeys st @ [key], appendSplitKey := False, sp_sum := 0\<rparr>
                 else st);
          n = (word_of_nat (length key + length val) :: 64 word);
          st2 = st1\<lparr>sp_sum := sp_sum st1 + n, sp_total := sp_total st1 + n,
                    sp_keys := sp_keys st1 + 1\<rparr>;
          st3 = (if sp_sum st2 \<ge> size' then st2\<lparr>appendSplitKey := True\<rparr> else st2)
      in ((True, None), st3))"

definition SplitCheck ::
  "kvstore \<Rightarrow> bytes \<Rightarrow> bytes \<Rightarrow> 64 word \<Rightarrow> 64 word \<times> 64 word \<times> bytes list \<times> error option" where
  "SplitCheck s start end' size' =
     (case kv_Scan s start end' (split_handler size') split_init of
        (Some err, st) \<Rightarrow> (0, 0, [], Some err)
      | (None, st) \<Rightarrow> (sp_total st, sp_keys st, splitKeys st, None))"

section \<open>The key encoder and the metadata codec\<close>

text \<open>
  The packages \<^verbatim>\<open>keys\<close>, \<^verbatim>\<open>meta\<close> and \<^verbatim>\<open>protoc\<close> are outside the sources at hand and
  the spec leaves their layouts open (section 4.B), so the functions taken from them are
  parameters: the applied-index key and the metadata key of a shard id, the shard id
  decoded from a metadata key, and the start and end key of the shard in a decoded
  \<^verbatim>\<open>ShardLocalState\<close> (\<open>None\<close>: \<^verbatim>\<open>MustUnmarshal\<close> panics).
\<close>

record codec =
  GetAppliedIndexKey :: "64 word \<Rightarrow> bytes"
  GetMetadataKey :: "64 word \<Rightarrow> 64 word \<Rightarrow> bytes"
  GetShardIDFromMetadataKey :: "bytes \<Rightarrow> error + 64 word"
  MustUnmarshal :: "bytes \<Rightarrow> (bytes \<times> bytes) option"

text \<open>
  Modelled from the spec: \<^verbatim>\<open>buf.Byte2UInt64\<close> is outside the sources at hand; the spec
  has the applied-index value as an "8-byte big-endian integer". Reading 8 bytes from a
  shorter slice panics.
\<close>

fun Uint64 :: "bytes \<Rightarrow> 64 word" where
  "Uint64 (b0 # b1 # b2 # b3 # b4 # b5 # b6 # b7 # _) =
     (push_bit 56 (ucast b0) OR push_bit 48 (ucast b1) OR push_bit 40 (ucast b2) OR
      push_bit 32 (ucast b3) OR push_bit 24 (ucast b4) OR push_bit 16 (ucast b5) OR
      push_bit 8 (ucast b6) OR ucast b7)"
| "Uint64 _ = 0"

definition Byte2UInt64 :: "bytes \<Rightarrow> error + 64 word" where
  "Byte2UInt64 b = (if length b < 8 then Inl Panic else Inr (Uint64 b))"

section \<open>The snapshot extractor\<close>

definition getAppliedIndex :: "codec \<Rightarrow> snapshot \<Rightarrow> 64 word \<Rightarrow> error + (bytes \<times> bytes)" where
  "getAppliedIndex c ss shardID =
     (let key = GetAppliedIndexKey c shardID in
      case snap_Get ss key of
        Inl err \<Rightarrow> Inl err
      | Inr v \<Rightarrow> Inr (key, v))"

text \<open>
  The loop of \<^verbatim>\<open>getShardMetadata\<close> over the entries ahead of the iterator; \<open>value\<close>
  and \<open>key\<close> are the two variables of the source, \<^verbatim>\<open>nil\<close> at first. \<^verbatim>\<open>clone\<close>
  allocates, so a cloned slice is never \<^verbatim>\<open>nil\<close>.
\<close>

fun getShardMetadata_loop ::
  "codec \<Rightarrow> 64 word \<Rightarrow> error option \<Rightarrow> entry list \<Rightarrow> slice \<Rightarrow> slice
     \<Rightarrow> error + (slice \<times> slice)" where
  "getShardMetadata_loop c shardID ierr [] value key = Inr (value, key)"
| "getShardMetadata_loop c shardID ierr ((k, v) # rest) value key =
     (case ierr of
        Some err \<Rightarrow> Inl err
      | None \<Rightarrow>
          (case GetShardIDFromMetadataKey c k of
             Inr keyShardID \<Rightarrow>
               if keyShardID = shardID
               then getShardMetadata_loop c shardID ierr rest (Some v) (Some k)
               else Inr (value, key)
           | Inl err \<Rightarrow> Inr (value, key)))"

definition getShardMetadata :: "codec \<Rightarrow> snapshot \<Rightarrow> 64 word \<Rightarrow> error + (bytes \<times> bytes)" where
  "getShardMetadata c ss shardID =
     (let metadataKey = GetMetadataKey c shardID 0;
          ios = \<lparr>LowerBound = Some metadataKey, UpperBound = None\<rparr>;
          iter = snap_NewIter ss ios
      in case getShardMetadata_loop c shardID (sn_iter_fault ss) iter None None of
           Inl err \<Rightarrow> Inl err
         | Inr (value, key) \<Rightarrow>
             if len value = 0 \<or> len key = 0 then Inl ErrNoMetadata
             else Inr (slice_bytes key, slice_bytes value))"

text \<open>
  Modelled from the spec: \<^verbatim>\<open>vfs.FS\<close> is outside the sources at hand; section 6 of the
  spec asks for \<^verbatim>\<open>mkdir_all\<close>, \<^verbatim>\<open>create\<close>, \<^verbatim>\<open>open\<close>, \<^verbatim>\<open>path_join\<close> and \<^verbatim>\<open>close\<close>.
  The filesystem is the content of its files, the errors that the next \<^verbatim>\<open>MkdirAll\<close>,
  \<^verbatim>\<open>Create\<close> and \<^verbatim>\<open>Open\<close> return (\<open>None\<close>: they succeed), and the schedules that
  the files it hands out follow. Opening a file that does not exist is an error.
\<close>

record vfs =
  fs_files :: "string \<rightharpoonup> bytes"
  mkdir_fault :: "error option"
  create_fault :: "error option"
  open_fault :: "error option"
  fs_wsched :: "nat option list"
  fs_rsched :: "read_step list"

definition PathJoin :: "string \<Rightarrow> string \<Rightarrow> string" where
  "PathJoin dir name = dir @ ''/'' @ name"

definition fs_Create :: "vfs \<Rightarrow> string \<Rightarrow> error + wfile" where
  "fs_Create fs file =
     (case create_fault fs of
        Some err \<Rightarrow> Inl err
      | None \<Rightarrow> Inr \<lparr>wdata = [], wsched = fs_wsched fs\<rparr>)"

definition fs_Open :: "vfs \<Rightarrow> string \<Rightarrow> error + rfile" where
  "fs_Open fs file =
     (case open_fault fs of
        Some err \<Rightarrow> Inl err
      | None \<Rightarrow>
          (case fs_files fs file of
             None \<Rightarrow> Inl FsError
           | Some bs \<Rightarrow> Inr \<lparr>rdata = bs, rsched = fs_rsched fs\<rparr>))"

text \<open>Writing blobs one after the other, up to the first error.\<close>

fun writeAll :: "wfile \<Rightarrow> bytes list \<Rightarrow> error option \<times> wfile" where
  "writeAll f [] = (None, f)"
| "writeAll f (b # bs) =
     (case writeBytes f b of
        (Some err, f1) \<Rightarrow> (Some err, f1)
      | (None, f1) \<Rightarrow> writeAll f1 bs)"

text \<open>
  The body loop of \<^verbatim>\<open>CreateSnapshot\<close> over the entries ahead of the bounded iterator,
  with its explicit guard against keys at or beyond a non-empty end.
\<close>

fun CreateSnapshot_loop ::
  "bytes \<Rightarrow> error option \<Rightarrow> entry list \<Rightarrow> wfile \<Rightarrow> error option \<times> wfile" where
  "CreateSnapshot_loop shardEnd ierr [] f = (None, f)"
| "CreateSnapshot_loop shardEnd ierr ((k, v) # rest) f =
     (case ierr of
        Some err \<Rightarrow> (Some err, f)
      | None \<Rightarrow>
          if length shardEnd > 0 \<and> k \<ge> shardEnd then (None, f)
          else
            (case writeBytes f k of
               (Some err, f1) \<Rightarrow> (Some err, f1)
             | (None, f1) \<Rightarrow>
                 (case writeBytes f1 v of
                    (Some err, f2) \<Rightarrow> (Some err, f2)
                  | (None, f2) \<Rightarrow> CreateSnapshot_loop shardEnd ierr rest f2)))"

text \<open>
  \<^verbatim>\<open>CreateSnapshot\<close> from the point where the file is open (line 206 of the source) to
  its return: the result and the file as it is when the deferred \<^verbatim>\<open>Close\<close> runs.
\<close>

definition CreateSnapshot_file ::
  "codec \<Rightarrow> kvstore \<Rightarrow> 64 word \<Rightarrow> wfile \<Rightarrow> (error + 64 word) \<times> wfile" where
  "CreateSnapshot_file c s shardID f =
     (let snap = GetView s in
      case getAppliedIndex c snap shardID of
        Inl err \<Rightarrow> (Inl err, f)
      | Inr (appliedIndexKey, appliedIndexValue) \<Rightarrow>
          (case getShardMetadata c snap shardID of
             Inl err \<Rightarrow> (Inl err, f)
           | Inr (metadataKey, metadataValue) \<Rightarrow>
               (case MustUnmarshal c metadataValue of
                  None \<Rightarrow> (Inl Panic, f)
                | Some (shardStart, shardEnd) \<Rightarrow>
                    (case Byte2UInt64 appliedIndexValue of
                       Inl err \<Rightarrow> (Inl err, f)
                     | Inr appliedIndex \<Rightarrow>
                         (case writeAll f [shardStart, shardEnd, appliedIndexKey,
                                 appliedIndexValue, metadataKey, metadataValue] of
                            (Some err, f1) \<Rightarrow> (Inl err, f1)
                          | (None, f1) \<Rightarrow>
                              (let iter = snap_NewIter snap (range_bounds shardStart shardEnd) in
                               case CreateSnapshot_loop shardEnd (sn_iter_fault snap) iter f1 of
                                 (Some err, f2) \<Rightarrow> (Inl err, f2)
                               | (None, f2) \<Rightarrow> (Inr appliedIndex, f2)))))))"

definition CreateSnapshot ::
  "codec \<Rightarrow> kvstore \<Rightarrow> vfs \<Rightarrow> 64 word \<Rightarrow> string \<Rightarrow> (error + 64 word) \<times> vfs" where
  "CreateSnapshot c s fs shardID path =
     (case mkdir_fault fs of
        Some err \<Rightarrow> (Inl err, fs)
      | None \<Rightarrow>
          (let file = PathJoin path ''db.data'' in
           case fs_Create fs file of
             Inl err \<Rightarrow> (Inl err, fs)
           | Inr f \<Rightarrow>
               (case CreateSnapshot_file c s shardID f of
                  (res, f1) \<Rightarrow> (res, fs\<lparr>fs_files := (fs_files fs)(file \<mapsto> wdata f1)\<rparr>))))"

section \<open>The snapshot applier\<close>

text \<open>
  The body loop of \<^verbatim>\<open>ApplySnapshot\<close>: the error it returns, or \<open>None\<close> when it is left
  by \<^verbatim>\<open>break\<close>, and the store. It is partial as \<^verbatim>\<open>readBytes\<close> is.
\<close>

partial_function (option) ApplySnapshot_loop ::
  "rfile \<Rightarrow> kvstore \<Rightarrow> (error option \<times> kvstore) option" where
  "ApplySnapshot_loop f s =
     (case readBytes f of
        None \<Rightarrow> None
      | Some (Inl err, f1) \<Rightarrow> Some (Some err, s)
      | Some (Inr key, f1) \<Rightarrow>
          if len key = 0 then Some (None, s)
          else
            (case readBytes f1 of
               None \<Rightarrow> None
             | Some (Inl err, f2) \<Rightarrow> Some (Some err, s)
             | Some (Inr value, f2) \<Rightarrow>
                 if len value = 0
                 then Some (Some (FormatError ''error format, missing value field''), s)
                 else
                   (case kv_Set s (slice_bytes key) (slice_bytes value) False of
                      (Some err, s1) \<Rightarrow> Some (Some err, s1)
                    | (None, s1) \<Rightarrow> ApplySnapshot_loop f2 s1)))"

text \<open>
  \<^verbatim>\<open>ApplySnapshot\<close> from line 310 of the source on, with the six header fields read
  and the file positioned at the body: the range delete, the two sets, the body loop and
  the final sync.
\<close>

definition ApplySnapshot_writes ::
  "kvstore \<Rightarrow> rfile \<Rightarrow> bytes \<Rightarrow> bytes \<Rightarrow> bytes \<Rightarrow> bytes \<Rightarrow> bytes \<Rightarrow> bytes
     \<Rightarrow> (error option \<times> kvstore) option" where
  "ApplySnapshot_writes s f start end' appliedIndexKey appliedIndexValue metadataKey
       metadataValue =
     (case kv_RangeDelete s start end' False of
        (Some err, s1) \<Rightarrow> Some (Some err, s1)
      | (None, s1) \<Rightarrow>
     (case kv_Set s1 appliedIndexKey appliedIndexValue False of
        (Some err, s2) \<Rightarrow> Some (Some err, s2)
      | (None, s2) \<Rightarrow>
     (case kv_Set s2 metadataKey metadataValue False of
        (Some err, s3) \<Rightarrow> Some (Some err, s3)
      | (None, s3) \<Rightarrow>
     (case ApplySnapshot_loop f s3 of None \<Rightarrow> None
      | Some (Some err, s4) \<Rightarrow> Some (Some err, s4)
      | Some (None, s4) \<Rightarrow> Some (kv_Sync s4)))))"

text \<open>
  \<^verbatim>\<open>ApplySnapshot\<close> from the point where the file is open: the six header blobs with
  the two checks, then the writes.
\<close>

definition ApplySnapshot_file :: "kvstore \<Rightarrow> rfile \<Rightarrow> (error option \<times> kvstore) option" where
  "ApplySnapshot_file s f =
     (case readBytes f of None \<Rightarrow> None
      | Some (Inl err, f1) \<Rightarrow> Some (Some err, s)
      | Some (Inr start, f1) \<Rightarrow>
     if len start = 0 then Some (Some (FormatError ''error format, missing start field''), s) else
     (case readBytes f1 of None \<Rightarrow> None
      | Some (Inl err, f2) \<Rightarrow> Some (Some err, s)
      | Some (Inr end', f2) \<Rightarrow>
     if len end' = 0 then Some (Some (FormatError ''error format, missing end field''), s) else
     (case readBytes f2 of None \<Rightarrow> None
      | Some (Inl err, f3) \<Rightarrow> Some (Some err, s)
      | Some (Inr appliedIndexKey, f3) \<Rightarrow>
     (case readBytes f3 of None \<Rightarrow> None
      | Some (Inl err, f4) \<Rightarrow> Some (Some err, s)
      | Some (Inr appliedIndexValue, f4) \<Rightarrow>
     (case readBytes f4 of None \<Rightarrow> None
      | Some (Inl err, f5) \<Rightarrow> Some (Some err, s)
      | Some (Inr metadataKey, f5) \<Rightarrow>
     (case readBytes f5 of None \<Rightarrow> None
      | Some (Inl err, f6) \<Rightarrow> Some (Some err, s)
      | Some (Inr metadataValue, f6) \<Rightarrow>
          ApplySnapshot_writes s f6 (slice_bytes start) (slice_bytes end')
            (slice_bytes appliedIndexKey) (slice_bytes appliedIndexValue)
            (slice_bytes metadataKey) (slice_bytes metadataValue)))))))"

definition ApplySnapshot ::
  "kvstore \<Rightarrow> vfs \<Rightarrow> 64 word \<Rightarrow> string \<Rightarrow> (error option \<times> kvstore) option" where
  "ApplySnapshot s fs shardID path =
     (case fs_Open fs (PathJoin path ''db.data'') of
        Inl err \<Rightarrow> Some (Some err, s)
      | Inr f \<Rightarrow> ApplySnapshot_file s f)"

section \<open>Derived notions and concrete inputs\<close>

text \<open>The bytes that one successful \<^verbatim>\<open>writeBytes\<close> appends to a file.\<close>

definition frame :: "bytes \<Rightarrow> bytes" where
  "frame b = PutUint32 (word_of_nat (length b)) @ b"

text \<open>A freshly created file whose writes all succeed, and an empty store without failures.\<close>

definition new_wfile :: wfile where
  "new_wfile = \<lparr>wdata = [], wsched = []\<rparr>"

definition store0 :: kvstore where
  "store0 = \<lparr>entries = [], oplog = [], faults = [], scan_fault = None, iter_fault = None\<rparr>"

text \<open>
  The bytes that an entry contributes to a scan, \<^verbatim>\<open>len(key) + len(val)\<close>, the bytes of a
  list of entries, and the entries that a scan of \<open>[start, end)\<close> visits.
\<close>

definition entry_size :: "entry \<Rightarrow> nat" where
  "entry_size e = length (fst e) + length (snd e)"

definition bytes_of :: "entry list \<Rightarrow> nat" where
  "bytes_of es = sum_list (map entry_size es)"

definition range_entries :: "kvstore \<Rightarrow> bytes \<Rightarrow> bytes \<Rightarrow> entry list" where
  "range_entries s start end' =
     filter (\<lambda>(k, v). within (range_bounds start end') k) (entries s)"

text \<open>The handler of \<^verbatim>\<open>SplitCheck\<close> run over a list of entries.\<close>

definition split_fold :: "64 word \<Rightarrow> split_vars \<Rightarrow> entry list \<Rightarrow> split_vars" where
  "split_fold sz st es = foldl (\<lambda>st (k, v). snd (split_handler sz k v st)) st es"

text \<open>
  The entries with a key in \<open>[lo, hi)\<close>, where \<open>None\<close> is no bound. For split keys
  \<open>ks = [k\<^sub>1, \<dots>, k\<^sub>m]\<close> returned for a scan, \<open>segment ks es i\<close> is the part of the
  scanned entries \<open>es\<close> in the \<open>i\<close>-th segment: \<open>[start, k\<^sub>1)\<close> for \<open>i = 0\<close>,
  \<open>[k\<^sub>i, k\<^sub>i\<^sub>+\<^sub>1)\<close> in between and \<open>[k\<^sub>m, end)\<close> for \<open>i = m\<close>. The scanned entries
  lie in \<open>[start, end)\<close> already, so the two outer bounds need not be repeated.
\<close>

definition between :: "slice \<Rightarrow> slice \<Rightarrow> entry list \<Rightarrow> entry list" where
  "between lo hi es = filter (\<lambda>(k, v). within \<lparr>LowerBound = lo, UpperBound = hi\<rparr> k) es"

definition seg_lower :: "bytes list \<Rightarrow> nat \<Rightarrow> slice" where
  "seg_lower ks i = (if i = 0 then None else Some (ks ! (i - 1)))"

definition seg_upper :: "bytes list \<Rightarrow> nat \<Rightarrow> slice" where
  "seg_upper ks i = (if i < length ks then Some (ks ! i) else None)"

definition segment :: "bytes list \<Rightarrow> entry list \<Rightarrow> nat \<Rightarrow> entry list" where
  "segment ks es i = between (seg_lower ks i) (seg_upper ks i) es"

text \<open>
  What holds of the variables of the handler after the entries \<open>pre\<close>: the split keys
  ascend and are keys of \<open>pre\<close>; every closed segment has an entry and at least \<open>sz\<close>
  bytes; the open segment has an entry as soon as there is one at all and at least the
  bytes counted in \<^verbatim>\<open>sum\<close>; and when the flag is set it has at least \<open>sz\<close> bytes.
\<close>

definition split_inv :: "64 word \<Rightarrow> entry list \<Rightarrow> split_vars \<Rightarrow> bool" where
  "split_inv sz pre st =
     (sorted_wrt (<) (splitKeys st) \<and>
      set (splitKeys st) \<subseteq> fst ` set pre \<and>
      (\<forall>i < length (splitKeys st).
          segment (splitKeys st) pre i \<noteq> [] \<and>
          unat sz \<le> bytes_of (segment (splitKeys st) pre i)) \<and>
      (pre \<noteq> [] \<longrightarrow> segment (splitKeys st) pre (length (splitKeys st)) \<noteq> []) \<and>
      unat (sp_sum st) \<le> bytes_of (segment (splitKeys st) pre (length (splitKeys st))) \<and>
      (appendSplitKey st \<longrightarrow>
         pre \<noteq> [] \<and> unat sz \<le> bytes_of (segment (splitKeys st) pre (length (splitKeys st)))))"

text \<open>
  A store with the keys \<open>a\<close>, \<open>b\<close>, \<open>c\<close>, \<open>d\<close>, each with a value of four bytes, and the
  key \<open>z9\<close>.
\<close>

definition store_abcd :: kvstore where
  "store_abcd =
     \<lparr>entries = [([97], [49, 49, 49, 49]), ([98], [50, 50, 50, 50]), ([99], [51, 51, 51, 51]),
                 ([100], [52, 52, 52, 52]), ([122, 57], [122, 122])],
      oplog = [], faults = [], scan_fault = None, iter_fault = None\<rparr>"

text \<open>
  The entries that the loop of \<^verbatim>\<open>getShardMetadata\<close> walks over: from the first key at or
  after the metadata key of the shard, as long as the key decodes to the shard id.
\<close>

definition metadata_run :: "codec \<Rightarrow> kvstore \<Rightarrow> 64 word \<Rightarrow> entry list" where
  "metadata_run c s shardID =
     takeWhile (\<lambda>(k, v). GetShardIDFromMetadataKey c k = Inr shardID)
       (filter (\<lambda>(k, v). GetMetadataKey c shardID 0 \<le> k) (entries s))"

text \<open>
  A small codec for concrete inputs (it is not the layout of the package \<^verbatim>\<open>keys\<close>): the
  applied-index key of shard \<open>i\<close> is \<open>[1, i]\<close>, its metadata key with discriminator \<open>d\<close>
  is \<open>[2, i, d]\<close>, and a metadata value is the length of the start key in one byte, the
  start key and the end key.
\<close>

definition codec0 :: codec where
  "codec0 =
     \<lparr>GetAppliedIndexKey = (\<lambda>i. [1, ucast i]),
      GetMetadataKey = (\<lambda>i d. [2, ucast i, ucast d]),
      GetShardIDFromMetadataKey =
        (\<lambda>k. case k of [t, i, d] \<Rightarrow> if t = 2 then Inr (ucast i) else Inl (FormatError ''key'')
               | _ \<Rightarrow> Inl (FormatError ''key'')),
      MustUnmarshal =
        (\<lambda>v. case v of [] \<Rightarrow> None
               | n # rest \<Rightarrow> if unat n \<le> length rest
                           then Some (take (unat n) rest, drop (unat n) rest) else None)\<rparr>"

text \<open>
  Shard 1 with the range \<open>[k1, k9)\<close>, the applied index 100, two metadata records, three
  keys in the range and one beyond it. Shard 9 has an applied index and no metadata.
\<close>

definition store1 :: kvstore where
  "store1 =
     \<lparr>entries =
        [([1, 1], [0, 0, 0, 0, 0, 0, 0, 100]),
         ([1, 9], [0, 0, 0, 0, 0, 0, 0, 7]),
         ([2, 1, 0], [2, 107, 49, 107, 56]),
         ([2, 1, 1], [2, 107, 49, 107, 57]),
         ([2, 3, 0], [2, 107, 57, 122, 122]),
         ([107, 50], [118, 50]),
         ([107, 53], [118, 53]),
         ([107, 56], [118, 56]),
         ([122, 57], [122, 122])],
      oplog = [], faults = [], scan_fault = None, iter_fault = None\<rparr>"

text \<open>A filesystem without files, in which nothing fails.\<close>

definition fs0 :: vfs where
  "fs0 = \<lparr>fs_files = Map.empty, mkdir_fault = None, create_fault = None, open_fault = None,
          fs_wsched = [], fs_rsched = []\<rparr>"

text \<open>
  The content of a snapshot file: the six header blobs and the pairs of the body, each
  blob framed.
\<close>

definition body_bytes :: "entry list \<Rightarrow> bytes" where
  "body_bytes body = concat (map (\<lambda>(k, v). frame k @ frame v) body)"

definition snapshot_bytes ::
  "bytes \<Rightarrow> bytes \<Rightarrow> bytes \<Rightarrow> bytes \<Rightarrow> bytes \<Rightarrow> bytes \<Rightarrow> entry list \<Rightarrow> bytes" where
  "snapshot_bytes start end' aik aiv mk mv body =
     frame start @ frame end' @ frame aik @ frame aiv @ frame mk @ frame mv @ body_bytes body"

text \<open>
  The operations of one application in the order of section 4.F of the spec, and the
  part of a sequence of operations that reaches a store with the failure flags \<open>fl\<close>
  when the caller stops at the first operation that fails.
\<close>

definition apply_ops ::
  "bytes \<Rightarrow> bytes \<Rightarrow> bytes \<Rightarrow> bytes \<Rightarrow> bytes \<Rightarrow> bytes \<Rightarrow> entry list \<Rightarrow> kvop list" where
  "apply_ops start end' aik aiv mk mv body =
     [OpRangeDelete start end' False, OpSet aik aiv False, OpSet mk mv False] @
     map (\<lambda>(k, v). OpSet k v False) body @ [OpSync]"

fun issued :: "bool list \<Rightarrow> kvop list \<Rightarrow> kvop list" where
  "issued fl [] = []"
| "issued [] (oper # ops) = oper # ops"
| "issued (b # fl) (oper # ops) = (if b then [oper] else oper # issued fl ops)"

text \<open>
  What the body loop and the whole of \<^verbatim>\<open>ApplySnapshot\<close> do with a file once its blobs
  are read: the loop ends at a key of length 0, rejects a value of length 0 and sets
  every other pair.
\<close>

fun apply_sets :: "kvstore \<Rightarrow> entry list \<Rightarrow> error option \<times> kvstore" where
  "apply_sets s [] = (None, s)"
| "apply_sets s ((k, v) # body) =
     (if k = [] then (None, s)
      else if v = [] then (Some (FormatError ''error format, missing value field''), s)
      else
        (case kv_Set s k v False of
           (Some err, s1) \<Rightarrow> (Some err, s1)
         | (None, s1) \<Rightarrow> apply_sets s1 body))"

definition apply_parsed ::
  "kvstore \<Rightarrow> bytes \<Rightarrow> bytes \<Rightarrow> bytes \<Rightarrow> bytes \<Rightarrow> bytes \<Rightarrow> bytes \<Rightarrow> entry list
     \<Rightarrow> error option \<times> kvstore" where
  "apply_parsed s start end' aik aiv mk mv body =
     (if start = [] then (Some (FormatError ''error format, missing start field''), s)
      else if end' = [] then (Some (FormatError ''error format, missing end field''), s)
      else
        (case kv_RangeDelete s start end' False of
           (Some err, s1) \<Rightarrow> (Some err, s1)
         | (None, s1) \<Rightarrow>
        (case kv_Set s1 aik aiv False of
           (Some err, s2) \<Rightarrow> (Some err, s2)
         | (None, s2) \<Rightarrow>
        (case kv_Set s2 mk mv False of
           (Some err, s3) \<Rightarrow> (Some err, s3)
         | (None, s3) \<Rightarrow>
        (case apply_sets s3 body of
           (Some err, s4) \<Rightarrow> (Some err, s4)
         | (None, s4) \<Rightarrow> kv_Sync s4)))))"

text \<open>All blobs of a file are shorter than \<open>2 ^ 32\<close> bytes.\<close>

definition short_blobs :: "bytes list \<Rightarrow> bool" where
  "short_blobs bs = list_all (\<lambda>b. length b < 2 ^ 32) bs"

definition short_entries :: "entry list \<Rightarrow> bool" where
  "short_entries es = list_all (\<lambda>(k, v). length k < 2 ^ 32 \<and> length v < 2 ^ 32) es"

text \<open>A filesystem that holds the file \<open>bs\<close> as \<^verbatim>\<open>snap/db.data\<close>, in which nothing fails.\<close>

definition fs_with :: "bytes \<Rightarrow> vfs" where
  "fs_with bs = \<lparr>fs_files = [''snap/db.data'' \<mapsto> bs], mkdir_fault = None, create_fault = None,
      open_fault = None, fs_wsched = [], fs_rsched = []\<rparr>"

text \<open>The next operation issued to the store fails.\<close>

definition failing :: "kvstore \<Rightarrow> bool" where
  "failing s = (case faults s of [] \<Rightarrow> False | b # fl \<Rightarrow> b)"

text \<open>No key and no value of the pairs is empty.\<close>

definition nonempty_entries :: "entry list \<Rightarrow> bool" where
  "nonempty_entries es = list_all (\<lambda>(k, v). k \<noteq> [] \<and> v \<noteq> []) es"

text \<open>
  What every run of the body loop that returns has done to the log of the store: it has
  issued sets with \<open>sync = False\<close>, up to the first one that failed, and when it was
  left by \<^verbatim>\<open>break\<close> none of them has failed.
\<close>

definition loop_trace :: "kvstore \<Rightarrow> error option \<times> kvstore \<Rightarrow> bool" where
  "loop_trace s y =
     (\<exists>body. oplog (snd y) =
              oplog s @ issued (faults s) (map (\<lambda>(k, v). OpSet k v False) body) \<and>
            (fst y = None \<longrightarrow> True \<notin> set (take (length body) (faults s)) \<and>
                          faults (snd y) = drop (length body) (faults s)))"

text \<open>
  What every run of \<^verbatim>\<open>ApplySnapshot\<close> that returns has done to the log of the store:
  the operations issued are an initial part of the operations of section 4.F for some
  header and body, cut after the first one that failed, and they are all of them when
  the result is \<^verbatim>\<open>nil\<close>.
\<close>

definition order_kept :: "kvstore \<Rightarrow> error option \<times> kvstore \<Rightarrow> bool" where
  "order_kept s y =
     (\<exists>start end' aik aiv mk mv body n.
        oplog (snd y) =
          oplog s @ issued (faults s) (take n (apply_ops start end' aik aiv mk mv body)) \<and>
        (fst y = None \<longrightarrow>
           oplog (snd y) = oplog s @ apply_ops start end' aik aiv mk mv body))"

text \<open>The pairs of shard 1 in \<open>store1\<close>, and the file that the extractor writes for it.\<close>

definition body1 :: "entry list" where
  "body1 = [([107, 50], [118, 50]), ([107, 53], [118, 53]), ([107, 56], [118, 56])]"

definition snap1 :: bytes where
  "snap1 = snapshot_bytes [107, 49] [107, 57] [1, 1] [0, 0, 0, 0, 0, 0, 0, 100]
             [2, 1, 1] [2, 107, 49, 107, 57] body1"

text \<open>
  A key lies in the range \<open>[start, end)\<close> of a shard, where an empty end is unbounded
  (an empty start is below every key already).
\<close>

definition in_range :: "bytes \<Rightarrow> bytes \<Rightarrow> bytes \<Rightarrow> bool" where
  "in_range start end' k = (start \<le> k \<and> (end' = [] \<or> k < end'))"

text \<open>
  Shard 1 with the range from \<open>k1\<close> on, unbounded above, and shard 1 with the range
  \<open>[k1, k9)\<close> and an empty value under the key \<open>k2\<close>; with the files that the extractor
  writes for them.
\<close>

definition store2 :: kvstore where
  "store2 =
     \<lparr>entries =
        [([1, 1], [0, 0, 0, 0, 0, 0, 0, 100]),
         ([2, 1, 0], [2, 107, 49]),
         ([107, 50], [118, 50])],
      oplog = [], faults = [], scan_fault = None, iter_fault = None\<rparr>"

definition snap2 :: bytes where
  "snap2 = snapshot_bytes [107, 49] [] [1, 1] [0, 0, 0, 0, 0, 0, 0, 100]
             [2, 1, 0] [2, 107, 49] [([107, 50], [118, 50])]"

definition store3 :: kvstore where
  "store3 =
     \<lparr>entries =
        [([1, 1], [0, 0, 0, 0, 0, 0, 0, 100]),
         ([2, 1, 0], [2, 107, 49, 107, 57]),
         ([107, 50], []),
         ([107, 53], [118, 53])],
      oplog = [], faults = [], scan_fault = None, iter_fault = None\<rparr>"

definition snap3 :: bytes where
  "snap3 = snapshot_bytes [107, 49] [107, 57] [1, 1] [0, 0, 0, 0, 0, 0, 0, 100]
             [2, 1, 0] [2, 107, 49, 107, 57] [([107, 50], []), ([107, 53], [118, 53])]"

text \<open>
  Shard 1 with two metadata records, the last of them with an empty value.
\<close>

definition store5 :: kvstore where
  "store5 =
     \<lparr>entries =
        [([1, 1], [0, 0, 0, 0, 0, 0, 0, 100]),
         ([2, 1, 0], [2, 107, 49, 107, 57]),
         ([2, 1, 1], [])],
      oplog = [], faults = [], scan_fault = None, iter_fault = None\<rparr>"

section \<open>Properties of the framed codec\<close>

lemma Uint32_PutUint32: "Uint32 (PutUint32 v @ rest) = v"
proof -
  have "push_bit 24 (ucast (ucast (drop_bit 24 v) :: byte)) OR
        push_bit 16 (ucast (ucast (drop_bit 16 v) :: byte)) OR
        push_bit 8 (ucast (ucast (drop_bit 8 v) :: byte)) OR
        ucast (ucast v :: byte) = v"
  proof (rule bit_word_eqI)
    fix n assume n: "n < LENGTH(32)"
    consider "n < 8" | "8 \<le> n" "n < 16" | "16 \<le> n" "n < 24" | "24 \<le> n" "n < 32"
      using n by fastforce
    then show "bit (push_bit 24 (ucast (ucast (drop_bit 24 v) :: byte)) OR
        push_bit 16 (ucast (ucast (drop_bit 16 v) :: byte)) OR
        push_bit 8 (ucast (ucast (drop_bit 8 v) :: byte)) OR
        ucast (ucast v :: byte) :: 32 word) n = bit v n"
      by cases (auto simp: bit_simps)
  qed
  then show ?thesis by (simp add: PutUint32_def)
qed

lemma length_PutUint32 [simp]: "length (PutUint32 v) = 4"
  by (simp add: PutUint32_def)

lemma PutUint32_not_Nil [simp]: "PutUint32 v \<noteq> []"
  by (simp add: PutUint32_def)

lemma file_Read_reliable:
  "file_Read (reliable bs) n =
     (if bs = [] then ([], Some EOF, reliable bs) else (take n bs, None, reliable (drop n bs)))"
  by (simp add: file_Read_def reliable_def)

text \<open>
  On a file without short counts the payload loop returns after one \<^verbatim>\<open>Read\<close>, provided
  the file still holds the bytes asked for.
\<close>

lemma readBytes_loop_reliable:
  assumes "length data \<le> tot" and "tot - length data \<le> length bs"
  shows "readBytes_loop (reliable bs) tot data =
           Some (Inr (data @ take (tot - length data) bs), reliable (drop (tot - length data) bs))"
proof (cases "bs = []")
  case True
  with assms have "length data = tot" by simp
  with True show ?thesis
    by (subst readBytes_loop.simps) (simp add: file_Read_reliable fatal_def)
next
  case False
  from assms have "length data + min (length bs) (tot - length data) = tot" by simp
  with False show ?thesis
    by (subst readBytes_loop.simps) (simp add: file_Read_reliable fatal_def)
qed

lemma readBytes_reliable_PutUint32:
  assumes "unat w \<le> length bs"
  shows "readBytes (reliable (PutUint32 w @ bs)) =
           Some (Inr (Some (take (unat w) bs)), reliable (drop (unat w) bs))"
proof -
  have "take 4 (PutUint32 w @ bs) = PutUint32 w" "drop 4 (PutUint32 w @ bs) = bs"
    by simp_all
  with assms show ?thesis
    by (simp add: readBytes_def file_Read_reliable Uint32_PutUint32[of w "[]", simplified]
        readBytes_loop_reliable)
qed

lemma readBytes_frame:
  assumes "length b < 2 ^ 32"
  shows "readBytes (reliable (frame b @ rest)) = Some (Inr (Some b), reliable rest)"
proof -
  have "unat (word_of_nat (length b) :: 32 word) = length b"
    using assms by (simp add: unat_of_nat)
  then show ?thesis
    unfolding frame_def append_assoc
    by (subst readBytes_reliable_PutUint32) simp_all
qed

lemma readBytes_eof: "readBytes (reliable []) = Some (Inr None, reliable [])"
  by (simp add: readBytes_def file_Read_reliable)

lemma readBytes_zero_blob:
  "readBytes (reliable (frame [] @ rest)) = Some (Inr (Some []), reliable rest)"
  using readBytes_frame[of "[]" rest] by simp

lemma writeBytes_unfailing:
  "wsched f = [] \<Longrightarrow> writeBytes f data = (None, f\<lparr>wdata := wdata f @ frame data\<rparr>)"
  by (simp add: writeBytes_def file_Write_def frame_def)

lemma ApplySnapshot_loop_zero_key:
  "ApplySnapshot_loop (reliable (frame [] @ rest)) s = Some (None, s)"
  by (subst ApplySnapshot_loop.simps) (simp add: readBytes_zero_blob)

lemma ApplySnapshot_loop_eof:
  "ApplySnapshot_loop (reliable []) s = Some (None, s)"
  by (subst ApplySnapshot_loop.simps) (simp add: readBytes_eof)

text \<open>
  Claim C10. \<^verbatim>\<open>writeBytes\<close> puts the length of the blob modulo \<open>2 ^ 32\<close> into the 4-byte
  big-endian prefix. On a file whose writes and reads are complete, a blob shorter than
  \<open>2 ^ 32\<close> bytes is read back as it was written, and a blob of \<open>2 ^ 32\<close> bytes or more is
  read back as its first \<open>length data mod 2 ^ 32\<close> bytes, a strictly shorter blob, with
  the rest of it left in the stream.
\<close>

theorem writeBytes_length_mod:
  "writeBytes new_wfile data = (None, new_wfile\<lparr>wdata := frame data\<rparr>) \<and>
   unat (Uint32 (take 4 (frame data))) = length data mod 2 ^ 32 \<and>
   (length data < 2 ^ 32 \<longrightarrow>
      readBytes (reliable (frame data)) = Some (Inr (Some data), reliable [])) \<and>
   (2 ^ 32 \<le> length data \<longrightarrow>
      readBytes (reliable (frame data)) =
        Some (Inr (Some (take (length data mod 2 ^ 32) data)),
              reliable (drop (length data mod 2 ^ 32) data)) \<and>
      length (take (length data mod 2 ^ 32) data) < length data)"
proof -
  let ?w = "word_of_nat (length data) :: 32 word"
  have u: "unat ?w = length data mod 2 ^ 32"
    by (simp add: unat_of_nat)
  have le: "length data mod 2 ^ 32 \<le> length data"
    by (rule mod_less_eq_dividend)
  have w: "writeBytes new_wfile data = (None, new_wfile\<lparr>wdata := frame data\<rparr>)"
    by (simp add: writeBytes_unfailing new_wfile_def)
  have p: "unat (Uint32 (take 4 (frame data))) = length data mod 2 ^ 32"
    using u by (simp add: frame_def Uint32_PutUint32[of ?w "[]", simplified])
  have r: "readBytes (reliable (frame data)) =
        Some (Inr (Some (take (length data mod 2 ^ 32) data)),
              reliable (drop (length data mod 2 ^ 32) data))"
    using readBytes_reliable_PutUint32[of ?w data] u le by (simp add: frame_def)
  have small: "length data < 2 ^ 32 \<Longrightarrow> length data mod 2 ^ 32 = length data"
    by simp
  have big: "2 ^ 32 \<le> length data \<Longrightarrow> length data mod 2 ^ 32 < length data"
  proof -
    assume "2 ^ 32 \<le> length data"
    moreover have "length data mod 2 ^ 32 < 2 ^ 32" by simp
    ultimately show ?thesis by linarith
  qed
  show ?thesis
    using w p r small big by simp
qed

theorem writeBytes_length_mod_witness:
  "(length [1, 2, 3 :: byte] < 2 ^ 32 \<and>
    readBytes (reliable (frame [1, 2, 3])) = Some (Inr (Some [1, 2, 3]), reliable [])) \<and>
   (2 ^ 32 \<le> length (replicate (2 ^ 32) (0 :: byte)) \<and>
    length (take (length (replicate (2 ^ 32) (0 :: byte)) mod 2 ^ 32)
       (replicate (2 ^ 32) (0 :: byte))) < length (replicate (2 ^ 32) (0 :: byte)))"
  using writeBytes_length_mod[of "[1, 2, 3]"] writeBytes_length_mod[of "replicate (2 ^ 32) 0"]
  by simp

text \<open>
  Claim C3, as the code has it. At the end of the stream \<^verbatim>\<open>readBytes\<close> returns the
  \<^verbatim>\<open>nil\<close> slice, and for a zero-length blob it returns an allocated slice of length 0:
  the two results differ, but both have \<^verbatim>\<open>len\<close> 0, and the body loop of
  \<^verbatim>\<open>ApplySnapshot\<close> tests \<^verbatim>\<open>len(key) == 0\<close> only. So the loop is left without an error
  at the end of the stream and also at a zero-length key blob, whatever follows it.
\<close>

theorem readBytes_zero_length_and_sentinel:
  "readBytes (reliable []) = Some (Inr None, reliable []) \<and>
   readBytes (reliable (frame [] @ rest)) = Some (Inr (Some []), reliable rest) \<and>
   (None :: slice) \<noteq> Some [] \<and>
   len None = len (Some []) \<and>
   ApplySnapshot_loop (reliable []) s = Some (None, s) \<and>
   ApplySnapshot_loop (reliable (frame [] @ rest)) s = Some (None, s)"
  by (simp add: readBytes_eof readBytes_zero_blob ApplySnapshot_loop_eof
      ApplySnapshot_loop_zero_key)

text \<open>
  Claim C3 as stated fails: in the stream below a zero-length key blob is followed by
  the pair of the key \<open>[107]\<close> and the value \<open>[118]\<close>. \<^verbatim>\<open>readBytes\<close> returns the
  empty blob and leaves the pair in the stream, and the body loop of the applier ends
  there, as it does at the end of a stream, without having set the pair.
\<close>

theorem ApplySnapshot_loop_zero_key_counterexample:
  "readBytes (reliable [0, 0, 0, 0, 0, 0, 0, 1, 107, 0, 0, 0, 1, 118]) =
      Some (Inr (Some []), reliable [0, 0, 0, 1, 107, 0, 0, 0, 1, 118]) \<and>
   ApplySnapshot_loop (reliable [0, 0, 0, 0, 0, 0, 0, 1, 107, 0, 0, 0, 1, 118]) store0 =
      Some (None, store0)"
  using readBytes_zero_blob[of "[0, 0, 0, 1, 107, 0, 0, 0, 1, 118]"]
    ApplySnapshot_loop_zero_key[of "[0, 0, 0, 1, 107, 0, 0, 0, 1, 118]" store0]
  by (simp add: frame_def PutUint32_def)

text \<open>
  On a stream that ends inside a payload the loop of \<^verbatim>\<open>readBytes\<close> does not return:
  \<^verbatim>\<open>Read\<close> answers \<^verbatim>\<open>(0, io.EOF)\<close> again and again, which is neither an error for the
  loop nor progress.
\<close>

lemma readBytes_loop_truncated:
  "readBytes_loop (reliable []) 2 [65] = None"
proof (rule ccontr)
  assume "readBytes_loop (reliable []) 2 [65] \<noteq> None"
  then obtain y where y: "readBytes_loop (reliable []) 2 [65] = Some y" by auto
  have "\<not> (f = reliable [] \<and> tot = 2 \<and> data = [65])"
    if "readBytes_loop f tot data = Some y" for f tot data y
    using that
  proof (rule readBytes_loop.raw_induct[where P = "\<lambda>f tot data y.
      \<not> (f = reliable [] \<and> tot = 2 \<and> data = [65])", rotated])
    fix loop :: "rfile \<Rightarrow> nat \<Rightarrow> bytes \<Rightarrow> ((error + bytes) \<times> rfile) option"
      and f tot data y
    assume IH: "\<And>f tot data y. loop f tot data = Some y \<Longrightarrow>
        \<not> (f = reliable [] \<and> tot = 2 \<and> data = [65])"
      and step: "(case file_Read f (tot - length data) of
        (got, err, f1) \<Rightarrow>
          (case fatal err of
             Some e \<Rightarrow> Some (Inl e, f1)
           | None \<Rightarrow>
               if length (data @ got) = tot then Some (Inr (data @ got), f1)
               else loop f1 tot (data @ got))) = Some y"
    show "\<not> (f = reliable [] \<and> tot = 2 \<and> data = [65])"
    proof
      assume "f = reliable [] \<and> tot = 2 \<and> data = [65]"
      with step have "loop (reliable []) 2 [65] = Some y"
        by (simp add: file_Read_reliable fatal_def)
      from IH[OF this] show False by simp
    qed
  qed
  from this[OF y] show False by simp
qed

text \<open>
  Claim C4 at a reader that returns a short count on the length prefix. The stream holds
  the prefix \<open>[0, 0, 0, 1]\<close> and the payload \<open>[65]\<close>; the first \<^verbatim>\<open>Read\<close> delivers two
  bytes. \<^verbatim>\<open>readBytes\<close> does not read on to the fourth byte: it decodes the buffer
  \<open>[0, 0, 0, 0]\<close>, returns an empty blob and leaves \<open>[0, 1, 65]\<close> in the stream. A short
  count inside the payload is made up for by the loop: the payload \<open>[65, 66]\<close> delivered
  one byte at a time is read whole. And on the stream \<open>[0, 0, 0, 2, 65]\<close>, which ends
  inside the payload, \<^verbatim>\<open>readBytes\<close> does not return.
\<close>

theorem readBytes_short_prefix:
  "readBytes \<lparr>rdata = [0, 0, 0, 1, 65], rsched = [Deliver 2]\<rparr> =
     Some (Inr (Some []), \<lparr>rdata = [0, 1, 65], rsched = []\<rparr>) \<and>
   readBytes \<lparr>rdata = [0, 0, 0, 2, 65, 66], rsched = [Deliver 4, Deliver 1]\<rparr> =
     Some (Inr (Some [65, 66]), \<lparr>rdata = [], rsched = []\<rparr>) \<and>
   readBytes (reliable [0, 0, 0, 2, 65]) = None"
proof -
  have 0: "readBytes_loop \<lparr>rdata = [0, 1, 65], rsched = []\<rparr> 0 [] =
          Some (Inr [], \<lparr>rdata = [0, 1, 65], rsched = []\<rparr>)"
    by (subst readBytes_loop.simps) (simp add: file_Read_def fatal_def)
  have a: "readBytes \<lparr>rdata = [0, 0, 0, 1, 65], rsched = [Deliver 2]\<rparr> =
     Some (Inr (Some []), \<lparr>rdata = [0, 1, 65], rsched = []\<rparr>)"
    using 0 by (simp add: readBytes_def file_Read_def numeral_2_eq_2)
  have 2: "readBytes_loop \<lparr>rdata = [66], rsched = []\<rparr> 2 [65] =
          Some (Inr [65, 66], \<lparr>rdata = [], rsched = []\<rparr>)"
    by (subst readBytes_loop.simps) (simp add: file_Read_def fatal_def)
  have 1: "readBytes_loop \<lparr>rdata = [65, 66], rsched = [Deliver 1]\<rparr> 2 [] =
          Some (Inr [65, 66], \<lparr>rdata = [], rsched = []\<rparr>)"
    by (subst readBytes_loop.simps) (simp add: file_Read_def fatal_def 2)
  have b: "readBytes \<lparr>rdata = [0, 0, 0, 2, 65, 66], rsched = [Deliver 4, Deliver 1]\<rparr> =
     Some (Inr (Some [65, 66]), \<lparr>rdata = [], rsched = []\<rparr>)"
    using 1 by (simp add: readBytes_def file_Read_def)
  have "readBytes_loop (reliable [65]) 2 [] = readBytes_loop (reliable []) 2 [65]"
    by (subst readBytes_loop.simps) (simp add: file_Read_reliable fatal_def)
  then have c: "readBytes (reliable [0, 0, 0, 2, 65]) = None"
    by (simp add: readBytes_def file_Read_reliable readBytes_loop_truncated)
  show ?thesis using a b c by simp
qed

section \<open>Properties of the split planner\<close>

lemma bytes_of_simps [simp]:
  "bytes_of [] = 0" "bytes_of (e # es) = entry_size e + bytes_of es"
  "bytes_of (xs @ ys) = bytes_of xs + bytes_of ys"
  by (simp_all add: bytes_of_def)

lemma split_handler_continue: "fst (split_handler sz k v st) = (True, None)"
  by (simp add: split_handler_def Let_def)

text \<open>A scan that succeeds has run the handler over every entry.\<close>

lemma scan_loop_split_handler:
  "scan_loop (split_handler sz) es fault st = (None, st') \<Longrightarrow>
     st' = foldl (\<lambda>st (k, v). snd (split_handler sz k v st)) st es"
proof (induction es arbitrary: fault st)
  case Nil
  then show ?case by (cases fault; cases "the fault") auto
next
  case (Cons e es)
  obtain k v where e: "e = (k, v)" by (cases e)
  obtain st1 where h: "split_handler sz k v st = ((True, None), st1)"
    using split_handler_continue[of sz k v st] by (cases "split_handler sz k v st") auto
  show ?case
  proof (cases fault)
    case None
    with Cons e h show ?thesis by auto
  next
    case (Some n)
    with Cons.prems have "n \<noteq> 0" by (cases n) auto
    then obtain m where "n = Suc m" by (cases n) auto
    with Cons e h Some show ?thesis by auto
  qed
qed

lemma scan_loop_no_fault:
  "scan_loop (split_handler sz) es None st =
     (None, foldl (\<lambda>st (k, v). snd (split_handler sz k v st)) st es)"
proof (induction es arbitrary: st)
  case Nil show ?case by simp
next
  case (Cons e es)
  obtain k v where e: "e = (k, v)" by (cases e)
  obtain st1 where h: "split_handler sz k v st = ((True, None), st1)"
    using split_handler_continue[of sz k v st] by (cases "split_handler sz k v st") auto
  with Cons e show ?case by simp
qed

lemma split_fold_simps [simp]:
  "split_fold sz st [] = st"
  "split_fold sz st ((k, v) # es) = split_fold sz (snd (split_handler sz k v st)) es"
  by (simp_all add: split_fold_def)

lemma split_fold_total:
  "sp_total (split_fold sz st es) = sp_total st + word_of_nat (bytes_of es)"
  by (induction es arbitrary: st)
     (auto simp: split_handler_def Let_def entry_size_def)

lemma split_fold_keys:
  "sp_keys (split_fold sz st es) = sp_keys st + word_of_nat (length es)"
  by (induction es arbitrary: st)
     (auto simp: split_handler_def Let_def)

lemma split_fold_below:
  "\<not> appendSplitKey st \<Longrightarrow> unat (sp_sum st) + bytes_of es < unat sz \<Longrightarrow>
     splitKeys (split_fold sz st es) = splitKeys st"
proof (induction es arbitrary: st)
  case Nil show ?case by simp
next
  case (Cons e es)
  obtain k v where e: "e = (k, v)" by (cases e)
  let ?n = "word_of_nat (length k + length v) :: 64 word"
  have lt: "unat (sp_sum st) + (length k + length v) < 2 ^ 64"
    using Cons.prems(2) unsigned_less[of sz, where 'a=nat] by (simp add: e entry_size_def)
  then have n: "unat ?n = length k + length v"
    by (simp add: unat_of_nat del: of_nat_add)
  have s: "unat (sp_sum st + ?n) = unat (sp_sum st) + (length k + length v)"
    using lt n by (simp add: unat_word_ariths del: of_nat_add)
  have "\<not> sz \<le> sp_sum st + ?n"
    using Cons.prems(2) s by (simp add: word_le_nat_alt e entry_size_def del: of_nat_add)
  then have st1: "snd (split_handler sz k v st) = st\<lparr>sp_sum := sp_sum st + ?n,
       sp_total := sp_total st + ?n, sp_keys := sp_keys st + 1\<rparr>"
    using Cons.prems(1) by (simp add: split_handler_def Let_def del: of_nat_add)
  have "splitKeys (split_fold sz (snd (split_handler sz k v st)) es)
         = splitKeys (snd (split_handler sz k v st))"
    apply (rule Cons.IH)
    using Cons.prems s by (simp_all add: st1 e entry_size_def del: of_nat_add)
  then show ?case by (simp add: e st1 del: of_nat_add)
qed

lemma between_snoc:
  "between lo hi (es @ [(k, v)]) =
     between lo hi es @ (if within \<lparr>LowerBound = lo, UpperBound = hi\<rparr> k then [(k, v)] else [])"
  by (simp add: between_def)

lemma between_upper_above:
  "\<forall>e \<in> set es. fst e < k \<Longrightarrow> between lo (Some k) es = between lo None es"
  unfolding between_def by (rule filter_cong) (auto simp: within_def)

lemma between_lower_above:
  "\<forall>e \<in> set es. fst e < k \<Longrightarrow> between (Some k) hi es = []"
  unfolding between_def by (auto simp: within_def filter_empty_conv)

lemma unat_word_of_nat_le: "unat (word_of_nat n :: 64 word) \<le> n"
  by (simp add: unat_of_nat)

lemma unat_plus_le: "unat (a + b :: 64 word) \<le> unat a + unat b"
  by (simp add: unat_word_ariths)

lemma split_inv_init: "split_inv sz [] split_init"
  by (simp add: split_inv_def split_init_def segment_def between_def)

lemma split_inv_step:
  assumes inv: "split_inv sz pre st"
    and above: "\<forall>e \<in> set pre. fst e < k"
  shows "split_inv sz (pre @ [(k, v)]) (snd (split_handler sz k v st))"
proof -
  let ?ks = "splitKeys st"
  let ?m = "length ?ks"
  let ?n = "word_of_nat (length k + length v) :: 64 word"
  have n_le: "unat ?n \<le> length k + length v"
    by (rule unat_word_of_nat_le)
  from inv have srt: "sorted_wrt (<) ?ks" and sub: "set ?ks \<subseteq> fst ` set pre"
    and segs: "\<And>i. i < ?m \<Longrightarrow> segment ?ks pre i \<noteq> [] \<and> unat sz \<le> bytes_of (segment ?ks pre i)"
    and cur: "pre \<noteq> [] \<Longrightarrow> segment ?ks pre ?m \<noteq> []"
    and acc: "unat (sp_sum st) \<le> bytes_of (segment ?ks pre ?m)"
    and flag: "appendSplitKey st \<Longrightarrow> pre \<noteq> [] \<and> unat sz \<le> bytes_of (segment ?ks pre ?m)"
    by (simp_all add: split_inv_def)
  have ks_below: "\<And>x. x \<in> set ?ks \<Longrightarrow> x < k"
    using sub above by auto
  have nth_below: "\<And>i. i < ?m \<Longrightarrow> ?ks ! i < k"
    using ks_below by simp
  \<comment> \<open>the closed segments do not receive the new entry\<close>
  have closed: "\<And>i ks'. i < ?m \<Longrightarrow> segment (?ks @ ks') (pre @ [(k, v)]) i = segment ?ks pre i"
  proof -
    fix i ks' assume i: "i < ?m"
    have "\<not> k < ?ks ! i" using nth_below[OF i] by simp
    moreover have "i - 1 < ?m" using i by simp
    ultimately show "segment (?ks @ ks') (pre @ [(k, v)]) i = segment ?ks pre i"
      using i by (simp add: segment_def seg_lower_def seg_upper_def between_snoc within_def
          nth_append)
  qed
  have lower_m: "\<And>ks'. seg_lower (?ks @ ks') ?m = seg_lower ?ks ?m"
    by (simp add: seg_lower_def nth_append)
  have lower_ok: "case seg_lower ?ks ?m of None \<Rightarrow> True | Some lo \<Rightarrow> lo \<le> k"
    using nth_below[of "?m - 1"] by (auto simp: seg_lower_def)
  show ?thesis
  proof (cases "appendSplitKey st")
    case True
    let ?st' = "snd (split_handler sz k v st)"
    have ks': "splitKeys ?st' = ?ks @ [k]" and sum': "sp_sum ?st' = ?n"
      and flag': "appendSplitKey ?st' = (sz \<le> ?n)"
      using True by (simp_all add: split_handler_def Let_def del: of_nat_add)
    have seg_m: "segment (?ks @ [k]) (pre @ [(k, v)]) ?m = segment ?ks pre ?m"
      using above
      by (simp add: segment_def lower_m seg_upper_def between_snoc within_def
          between_upper_above)
    have seg_new: "segment (?ks @ [k]) (pre @ [(k, v)]) (Suc ?m) = [(k, v)]"
      using above
      by (simp add: segment_def seg_lower_def seg_upper_def between_snoc within_def
          between_lower_above)
    have 1: "sorted_wrt (<) (?ks @ [k])"
      using srt ks_below by (simp add: sorted_wrt_append)
    have 2: "set (?ks @ [k]) \<subseteq> fst ` set (pre @ [(k, v)])"
      using sub by auto
    have 3: "\<forall>i < length (?ks @ [k]).
          segment (?ks @ [k]) (pre @ [(k, v)]) i \<noteq> [] \<and>
          unat sz \<le> bytes_of (segment (?ks @ [k]) (pre @ [(k, v)]) i)"
    proof (intro allI impI)
      fix i assume "i < length (?ks @ [k])"
      then consider "i < ?m" | "i = ?m" by fastforce
      then show "segment (?ks @ [k]) (pre @ [(k, v)]) i \<noteq> [] \<and>
          unat sz \<le> bytes_of (segment (?ks @ [k]) (pre @ [(k, v)]) i)"
      proof cases
        case 1 then show ?thesis using segs[of i] closed[of i "[k]"] by simp
      next
        case 2 then show ?thesis using flag[OF True] cur seg_m by simp
      qed
    qed
    have 5: "unat ?n \<le> bytes_of [(k, v)]"
      using n_le by (simp add: entry_size_def)
    have 6: "sz \<le> ?n \<Longrightarrow> unat sz \<le> bytes_of [(k, v)]"
      using 5 by (simp add: word_le_nat_alt)
    show ?thesis
      unfolding split_inv_def ks' sum' flag'
      using 1 2 3 5 6 seg_new by (simp del: of_nat_add)
  next
    case False
    let ?st' = "snd (split_handler sz k v st)"
    have ks': "splitKeys ?st' = ?ks" and sum': "sp_sum ?st' = sp_sum st + ?n"
      and flag': "appendSplitKey ?st' = (sz \<le> sp_sum st + ?n)"
      using False by (simp_all add: split_handler_def Let_def del: of_nat_add)
    have seg_m: "segment ?ks (pre @ [(k, v)]) ?m = segment ?ks pre ?m @ [(k, v)]"
      using lower_ok
      by (simp add: segment_def seg_upper_def between_snoc within_def)
    have 2: "set ?ks \<subseteq> fst ` set (pre @ [(k, v)])"
      using sub by auto
    have 3: "\<forall>i < ?m. segment ?ks (pre @ [(k, v)]) i \<noteq> [] \<and>
          unat sz \<le> bytes_of (segment ?ks (pre @ [(k, v)]) i)"
      using segs closed[of _ "[]"] by simp
    have 5: "unat (sp_sum st + ?n) \<le> bytes_of (segment ?ks pre ?m @ [(k, v)])"
      using acc n_le unat_plus_le[of "sp_sum st" ?n] by (simp add: entry_size_def)
    have 6: "sz \<le> sp_sum st + ?n \<Longrightarrow> unat sz \<le> bytes_of (segment ?ks pre ?m @ [(k, v)])"
      using 5 by (simp add: word_le_nat_alt)
    show ?thesis
      unfolding split_inv_def ks' sum' flag' seg_m
      using srt 2 3[unfolded seg_m] 5 6 by (simp del: of_nat_add)
  qed
qed

lemma split_inv_fold:
  "split_inv sz pre st \<Longrightarrow> sorted_wrt (<) (map fst (pre @ es)) \<Longrightarrow>
     split_inv sz (pre @ es) (split_fold sz st es)"
proof (induction es arbitrary: pre st)
  case Nil then show ?case by simp
next
  case (Cons e es)
  obtain k v where e: "e = (k, v)" by (cases e)
  have above: "\<forall>x \<in> set pre. fst x < k"
    using Cons.prems(2) by (auto simp: e sorted_wrt_append)
  have "split_inv sz ((pre @ [(k, v)]) @ es) (split_fold sz (snd (split_handler sz k v st)) es)"
    using Cons.prems(2) by (intro Cons.IH split_inv_step[OF Cons.prems(1) above]) (simp add: e)
  then show ?case by (simp add: e)
qed

lemma kv_Scan_split_success:
  assumes "kv_Scan s start end' (split_handler sz) split_init = (None, st)"
  shows "st = split_fold sz split_init (range_entries s start end')"
  using scan_loop_split_handler[OF assms[unfolded kv_Scan_def]]
  by (simp add: split_fold_def range_entries_def)

lemma SplitCheck_success:
  assumes "SplitCheck s start end' sz = (t, n, ks, None)"
  shows "t = sp_total (split_fold sz split_init (range_entries s start end')) \<and>
         n = sp_keys (split_fold sz split_init (range_entries s start end')) \<and>
         ks = splitKeys (split_fold sz split_init (range_entries s start end'))"
proof (cases "kv_Scan s start end' (split_handler sz) split_init")
  case (Pair err st)
  with assms have "err = None" by (cases err) (auto simp: SplitCheck_def)
  with Pair assms kv_Scan_split_success[of s start end' sz st] show ?thesis
    by (auto simp: SplitCheck_def)
qed

lemma sorted_range_entries:
  "sorted_wrt (<) (map fst (entries s)) \<Longrightarrow> sorted_wrt (<) (map fst (range_entries s start end'))"
proof -
  have "map fst (range_entries s start end') =
          filter (within (range_bounds start end')) (map fst (entries s))"
    by (simp add: range_entries_def filter_map comp_def case_prod_unfold)
  then show "sorted_wrt (<) (map fst (entries s)) \<Longrightarrow> ?thesis"
    by (simp add: sorted_wrt_filter)
qed

text \<open>
  Claim C7. When the scan of \<open>[start, end)\<close> succeeds, \<^verbatim>\<open>SplitCheck\<close> returns as total
  the sum of \<^verbatim>\<open>len(key) + len(value)\<close> over the entries of the range and as keys their
  number, both as \<^verbatim>\<open>uint64\<close>, that is modulo \<open>2 ^ 64\<close>, and so exactly whenever
  they are below \<open>2 ^ 64\<close>. An empty range gives \<open>(0, 0, [])\<close>, and a range whose bytes
  are below the target size gives no split key.
\<close>

theorem SplitCheck_totals:
  assumes "SplitCheck s start end' sz = (t, n, ks, None)"
  shows "unat t = bytes_of (range_entries s start end') mod 2 ^ 64 \<and>
         unat n = length (range_entries s start end') mod 2 ^ 64 \<and>
         (bytes_of (range_entries s start end') < 2 ^ 64 \<longrightarrow>
            unat t = bytes_of (range_entries s start end')) \<and>
         (length (range_entries s start end') < 2 ^ 64 \<longrightarrow>
            unat n = length (range_entries s start end')) \<and>
         (range_entries s start end' = [] \<longrightarrow> t = 0 \<and> n = 0 \<and> ks = []) \<and>
         (bytes_of (range_entries s start end') < unat sz \<longrightarrow> ks = [])"
proof -
  let ?E = "range_entries s start end'"
  note r = SplitCheck_success[OF assms]
  have t: "unat t = bytes_of ?E mod 2 ^ 64"
    using r by (simp add: split_fold_total split_init_def unat_of_nat)
  have n: "unat n = length ?E mod 2 ^ 64"
    using r by (simp add: split_fold_keys split_init_def unat_of_nat)
  have e: "?E = [] \<Longrightarrow> t = 0 \<and> n = 0 \<and> ks = []"
    using r by (simp add: split_init_def)
  have b: "bytes_of ?E < unat sz \<Longrightarrow> ks = []"
    using r split_fold_below[of split_init ?E sz] by (simp add: split_init_def)
  show ?thesis using t n e b by simp
qed

lemma SplitCheck_abcd: "SplitCheck store_abcd [97] [101] 10 = (20, 4, [[99]], None)"
  by (simp add: SplitCheck_def kv_Scan_def store_abcd_def within_def range_bounds_def
      split_handler_def split_init_def Let_def)

lemma range_entries_abcd:
  "range_entries store_abcd [97] [101] =
     [([97], [49, 49, 49, 49]), ([98], [50, 50, 50, 50]), ([99], [51, 51, 51, 51]),
      ([100], [52, 52, 52, 52])]"
  by (simp add: range_entries_def store_abcd_def within_def range_bounds_def)

theorem SplitCheck_totals_witness:
  "SplitCheck store_abcd [97] [101] 10 = (20, 4, [[99]], None) \<and>
   bytes_of (range_entries store_abcd [97] [101]) < 2 ^ 64 \<and>
   unat (20 :: 64 word) = bytes_of (range_entries store_abcd [97] [101]) \<and>
   length (range_entries store_abcd [97] [101]) < 2 ^ 64 \<and>
   unat (4 :: 64 word) = length (range_entries store_abcd [97] [101]) \<and>
   range_entries store_abcd [100, 1] [101] = [] \<and>
   SplitCheck store_abcd [100, 1] [101] 10 = (0, 0, [], None) \<and>
   bytes_of (range_entries store_abcd [97] [101]) < unat (21 :: 64 word) \<and>
   SplitCheck store_abcd [97] [101] 21 = (20, 4, [], None)"
proof -
  have b: "bytes_of (range_entries store_abcd [97] [101]) = 20"
    by (simp add: range_entries_abcd entry_size_def)
  have e: "range_entries store_abcd [100, 1] [101] = []"
    by (simp add: range_entries_def store_abcd_def within_def range_bounds_def)
  have s0: "SplitCheck store_abcd [100, 1] [101] 10 = (0, 0, [], None)"
    by (simp add: SplitCheck_def kv_Scan_def store_abcd_def within_def range_bounds_def
      split_handler_def split_init_def Let_def)
  have s21: "SplitCheck store_abcd [97] [101] 21 = (20, 4, [], None)"
    by (simp add: SplitCheck_def kv_Scan_def store_abcd_def within_def range_bounds_def
      split_handler_def split_init_def Let_def)
  show ?thesis
    using SplitCheck_totals[OF SplitCheck_abcd] SplitCheck_totals[OF s0]
      SplitCheck_totals[OF s21] SplitCheck_abcd b e s0 s21
    by (simp add: range_entries_abcd)
qed

text \<open>
  Claim C2. When the scan of \<open>[start, end)\<close> succeeds on a store whose keys ascend, the
  split keys returned ascend strictly; every segment that they cut out of a range that
  is not empty, the first and the last included, holds an entry; and every segment but
  the last holds at least the target size in bytes: they are the bytes accumulated when
  the split key that ends the segment was chosen.
\<close>

theorem SplitCheck_sound:
  assumes "SplitCheck s start end' sz = (t, n, ks, None)"
    and "sorted_wrt (<) (map fst (entries s))"
  shows "sorted_wrt (<) ks \<and>
         (range_entries s start end' \<noteq> [] \<longrightarrow>
            (\<forall>i \<le> length ks. segment ks (range_entries s start end') i \<noteq> [])) \<and>
         (\<forall>i < length ks. unat sz \<le> bytes_of (segment ks (range_entries s start end') i))"
proof -
  let ?E = "range_entries s start end'"
  have ks: "ks = splitKeys (split_fold sz split_init ?E)"
    using SplitCheck_success[OF assms(1)] by simp
  have "split_inv sz ([] @ ?E) (split_fold sz split_init ?E)"
    using sorted_range_entries[OF assms(2)]
    by (intro split_inv_fold split_inv_init) simp
  then have inv: "sorted_wrt (<) ks"
    "\<And>i. i < length ks \<Longrightarrow> segment ks ?E i \<noteq> [] \<and> unat sz \<le> bytes_of (segment ks ?E i)"
    "?E \<noteq> [] \<Longrightarrow> segment ks ?E (length ks) \<noteq> []"
    by (simp_all add: split_inv_def ks)
  have "\<And>i. ?E \<noteq> [] \<Longrightarrow> i \<le> length ks \<Longrightarrow> segment ks ?E i \<noteq> []"
  proof -
    fix i assume "?E \<noteq> []" "i \<le> length ks"
    then show "segment ks ?E i \<noteq> []"
      using inv(2)[of i] inv(3) by (cases "i = length ks") auto
  qed
  then show ?thesis using inv by blast
qed

theorem SplitCheck_sound_witness:
  "SplitCheck store_abcd [97] [101] 10 = (20, 4, [[99]], None) \<and>
   sorted_wrt (<) (map fst (entries store_abcd)) \<and>
   range_entries store_abcd [97] [101] \<noteq> [] \<and>
   sorted_wrt (<) [[99 :: byte]] \<and>
   segment [[99]] (range_entries store_abcd [97] [101]) 0 =
     [([97], [49, 49, 49, 49]), ([98], [50, 50, 50, 50])] \<and>
   segment [[99]] (range_entries store_abcd [97] [101]) 1 =
     [([99], [51, 51, 51, 51]), ([100], [52, 52, 52, 52])] \<and>
   unat (10 :: 64 word) \<le> bytes_of (segment [[99]] (range_entries store_abcd [97] [101]) 0)"
proof -
  have srt: "sorted_wrt (<) (map fst (entries store_abcd))"
    by (simp add: store_abcd_def)
  have s0: "segment [[99]] (range_entries store_abcd [97] [101]) 0 =
     [([97], [49, 49, 49, 49]), ([98], [50, 50, 50, 50])]"
    by (simp add: range_entries_abcd segment_def seg_lower_def seg_upper_def between_def
        within_def)
  have s1: "segment [[99]] (range_entries store_abcd [97] [101]) 1 =
     [([99], [51, 51, 51, 51]), ([100], [52, 52, 52, 52])]"
    by (simp add: range_entries_abcd segment_def seg_lower_def seg_upper_def between_def
        within_def)
  from SplitCheck_sound[OF SplitCheck_abcd srt]
  have "\<forall>i < length [[99 :: byte]].
      unat (10 :: 64 word) \<le> bytes_of (segment [[99]] (range_entries store_abcd [97] [101]) i)"
    by blast
  then have "unat (10 :: 64 word) \<le> bytes_of (segment [[99]] (range_entries store_abcd [97] [101]) 0)"
    by simp
  then show ?thesis
    using SplitCheck_abcd srt s0 s1 by (simp add: range_entries_abcd)
qed

section \<open>Properties of the metadata lookup\<close>

lemma getShardMetadata_loop_run:
  "getShardMetadata_loop c shardID None es val key =
     Inr (case takeWhile (\<lambda>(k, v). GetShardIDFromMetadataKey c k = Inr shardID) es of
            [] \<Rightarrow> (val, key)
          | r # rs \<Rightarrow> (Some (snd (last (r # rs))), Some (fst (last (r # rs)))))"
proof (induction es arbitrary: val key)
  case Nil show ?case by simp
next
  case (Cons e es)
  obtain k v where e: "e = (k, v)" by (cases e)
  show ?case
    by (cases "GetShardIDFromMetadataKey c k")
       (auto simp: e Cons.IH split: list.splits)
qed

lemma getShardMetadata_run:
  assumes "iter_fault s = None"
  shows "getShardMetadata c (GetView s) shardID =
     (case metadata_run c s shardID of
        [] \<Rightarrow> Inl ErrNoMetadata
      | r # rs \<Rightarrow>
          if snd (last (r # rs)) = [] \<or> fst (last (r # rs)) = [] then Inl ErrNoMetadata
          else Inr (last (r # rs)))"
  using assms
  by (simp add: getShardMetadata_def GetView_def snap_NewIter_def within_def
      getShardMetadata_loop_run metadata_run_def Let_def split: list.splits)

lemma metadata_run_store1_1:
  "metadata_run codec0 store1 1 = [([2, 1, 0], [2, 107, 49, 107, 56]), ([2, 1, 1], [2, 107, 49, 107, 57])]"
  by (simp add: metadata_run_def codec0_def store1_def)

lemma metadata_run_store1_9: "metadata_run codec0 store1 9 = []"
  by (simp add: metadata_run_def codec0_def store1_def)

section \<open>Properties of the snapshot applier\<close>

lemma ApplySnapshot_loop_parsed:
  "short_entries body \<Longrightarrow>
     ApplySnapshot_loop (reliable (body_bytes body)) s = Some (apply_sets s body)"
proof (induction body arbitrary: s)
  case Nil
  show ?case by (simp add: body_bytes_def ApplySnapshot_loop_eof)
next
  case (Cons e body)
  obtain k v where e: "e = (k, v)" by (cases e)
  from Cons.prems have sk: "length k < 2 ^ 32" and sv: "length v < 2 ^ 32"
    and sb: "short_entries body"
    by (simp_all add: short_entries_def e)
  have b: "body_bytes ((k, v) # body) = frame k @ (frame v @ body_bytes body)"
    by (simp add: body_bytes_def)
  have rk: "readBytes (reliable (frame k @ (frame v @ body_bytes body))) =
              Some (Inr (Some k), reliable (frame v @ body_bytes body))"
    by (rule readBytes_frame[OF sk])
  have rv: "readBytes (reliable (frame v @ body_bytes body)) =
              Some (Inr (Some v), reliable (body_bytes body))"
    by (rule readBytes_frame[OF sv])
  show ?case
    unfolding e b
    by (subst ApplySnapshot_loop.simps)
       (simp add: rk rv Cons.IH[OF sb] split: prod.splits option.splits)
qed

lemma ApplySnapshot_file_parsed:
  assumes "short_blobs [start, end', aik, aiv, mk, mv]" and "short_entries body"
  shows "ApplySnapshot_file s (reliable (snapshot_bytes start end' aik aiv mk mv body)) =
           Some (apply_parsed s start end' aik aiv mk mv body)"
proof -
  from assms(1) have l: "length start < 2 ^ 32" "length end' < 2 ^ 32" "length aik < 2 ^ 32"
    "length aiv < 2 ^ 32" "length mk < 2 ^ 32" "length mv < 2 ^ 32"
    by (simp_all add: short_blobs_def)
  show ?thesis
    unfolding ApplySnapshot_file_def ApplySnapshot_writes_def snapshot_bytes_def apply_parsed_def
    by (simp add: readBytes_frame[OF l(1)] readBytes_frame[OF l(2)] readBytes_frame[OF l(3)]
        readBytes_frame[OF l(4)] readBytes_frame[OF l(5)] readBytes_frame[OF l(6)]
        ApplySnapshot_loop_parsed[OF assms(2)]
        split: prod.splits option.splits)
qed

lemma ApplySnapshot_reliable:
  assumes "open_fault fs = None" and "fs_rsched fs = []"
    and "fs_files fs (PathJoin path ''db.data'') = Some bs"
  shows "ApplySnapshot s fs shardID path = ApplySnapshot_file s (reliable bs)"
  using assms by (simp add: ApplySnapshot_def fs_Open_def reliable_def)

text \<open>
  Claim C5. When the start blob of the file has length 0, \<^verbatim>\<open>ApplySnapshot\<close> returns the
  format error "missing start field", and when the start blob is not empty and the end
  blob has length 0 it returns "missing end field". In both cases the store comes back
  as it was: its entries and the log of the operations issued to it are unchanged, so
  no range delete, no set and no sync has been issued.
\<close>

theorem ApplySnapshot_missing_field:
  assumes "open_fault fs = None" and "fs_rsched fs = []"
    and "fs_files fs (PathJoin path ''db.data'') = Some bs"
  shows "(bs = frame [] @ rest \<longrightarrow>
            ApplySnapshot s fs shardID path =
              Some (Some (FormatError ''error format, missing start field''), s)) \<and>
         (start \<noteq> [] \<and> length start < 2 ^ 32 \<and> bs = frame start @ frame [] @ rest \<longrightarrow>
            ApplySnapshot s fs shardID path =
              Some (Some (FormatError ''error format, missing end field''), s))"
proof (intro conjI impI)
  assume "bs = frame [] @ rest"
  then show "ApplySnapshot s fs shardID path =
      Some (Some (FormatError ''error format, missing start field''), s)"
    unfolding ApplySnapshot_reliable[OF assms]
    by (simp add: ApplySnapshot_file_def readBytes_zero_blob)
next
  assume a: "start \<noteq> [] \<and> length start < 2 ^ 32 \<and> bs = frame start @ frame [] @ rest"
  then have r: "readBytes (reliable (frame start @ frame [] @ rest)) =
      Some (Inr (Some start), reliable (frame [] @ rest))"
    using readBytes_frame[of start "frame [] @ rest"] by simp
  from a show "ApplySnapshot s fs shardID path =
      Some (Some (FormatError ''error format, missing end field''), s)"
    unfolding ApplySnapshot_reliable[OF assms]
    by (simp add: ApplySnapshot_file_def r readBytes_zero_blob)
qed

theorem ApplySnapshot_missing_field_witness:
  "open_fault (fs_with (frame [] @ frame [107])) = None \<and>
   fs_rsched (fs_with (frame [] @ frame [107])) = [] \<and>
   fs_files (fs_with (frame [] @ frame [107])) (PathJoin ''snap'' ''db.data'') =
     Some (frame [] @ frame [107]) \<and>
   ApplySnapshot store0 (fs_with (frame [] @ frame [107])) 1 ''snap'' =
     Some (Some (FormatError ''error format, missing start field''), store0) \<and>
   [107 :: byte] \<noteq> [] \<and> length [107 :: byte] < 2 ^ 32 \<and>
   fs_files (fs_with (frame [107] @ frame [] @ [])) (PathJoin ''snap'' ''db.data'') =
     Some (frame [107] @ frame [] @ []) \<and>
   ApplySnapshot store0 (fs_with (frame [107] @ frame [] @ [])) 1 ''snap'' =
     Some (Some (FormatError ''error format, missing end field''), store0)"
proof -
  have f: "\<And>bs. open_fault (fs_with bs) = None" "\<And>bs. fs_rsched (fs_with bs) = []"
    "\<And>bs. fs_files (fs_with bs) (PathJoin ''snap'' ''db.data'') = Some bs"
    by (simp_all add: fs_with_def PathJoin_def)
  show ?thesis
    using ApplySnapshot_missing_field[OF f[of "frame [] @ frame [107]"],
        where rest = "frame [107]" and start = "[107]" and s = store0 and shardID = 1]
      ApplySnapshot_missing_field[OF f[of "frame [107] @ frame [] @ []"],
        where rest = "[]" and start = "[107]" and s = store0 and shardID = 1]
    by (simp add: f)
qed

subsection \<open>The operations issued\<close>

lemma issued_Cons:
  "issued fl (oper # ops) = oper # (if (case fl of [] \<Rightarrow> False | b # fl' \<Rightarrow> b) then [] else issued (tl fl) ops)"
  by (cases fl; cases ops) auto

lemma issue_simps:
  "fst (issue oper s) = failing s"
  "oplog (snd (issue oper s)) = oplog s @ [oper]"
  "faults (snd (issue oper s)) = tl (faults s)"
  "entries (snd (issue oper s)) = entries s"
  by (simp_all add: issue_def failing_def split: list.splits)

lemma kv_Set_simps:
  "fst (kv_Set s k v b) = (if failing s then Some StoreError else None)"
  "oplog (snd (kv_Set s k v b)) = oplog s @ [OpSet k v b]"
  "faults (snd (kv_Set s k v b)) = tl (faults s)"
  "entries (snd (kv_Set s k v b)) =
     (if failing s then entries s else kv_insert k v (entries s))"
  using issue_simps[of "OpSet k v b" s]
  by (auto simp: kv_Set_def split: prod.splits bool.splits)

lemma kv_RangeDelete_simps:
  "fst (kv_RangeDelete s a b sy) = (if failing s then Some StoreError else None)"
  "oplog (snd (kv_RangeDelete s a b sy)) = oplog s @ [OpRangeDelete a b sy]"
  "faults (snd (kv_RangeDelete s a b sy)) = tl (faults s)"
  "entries (snd (kv_RangeDelete s a b sy)) =
     (if failing s then entries s
      else filter (\<lambda>(k, v). \<not> (a \<le> k \<and> k < b)) (entries s))"
  using issue_simps[of "OpRangeDelete a b sy" s]
  by (auto simp: kv_RangeDelete_def split: prod.splits bool.splits)

lemma kv_Sync_simps:
  "fst (kv_Sync s) = (if failing s then Some StoreError else None)"
  "oplog (snd (kv_Sync s)) = oplog s @ [OpSync]"
  "faults (snd (kv_Sync s)) = tl (faults s)"
  "entries (snd (kv_Sync s)) = entries s"
  using issue_simps[of OpSync s]
  by (auto simp: kv_Sync_def split: prod.splits bool.splits)

lemma keys_kv_insert: "(a, b) \<in> set (kv_insert k v es) \<Longrightarrow> a = k \<or> (a, b) \<in> set es"
  by (induction es) (auto split: if_splits)

lemma sorted_kv_insert:
  "sorted_wrt (<) (map fst es) \<Longrightarrow> sorted_wrt (<) (map fst (kv_insert k v es))"
proof (induction es)
  case Nil show ?case by simp
next
  case (Cons e es)
  obtain k' v' where e: "e = (k', v')" by (cases e)
  from Cons.prems have above: "\<forall>x \<in> fst ` set es. k' < x" and srt: "sorted_wrt (<) (map fst es)"
    by (auto simp: e)
  show ?case
  proof (cases "k < k'")
    case True
    with Cons.prems show ?thesis by (auto simp: e)
  next
    case False
    show ?thesis
    proof (cases "k = k'")
      case True
      with Cons.prems show ?thesis by (auto simp: e)
    next
      case ne: False
      with False have "k' < k" by simp
      with above have "\<forall>x \<in> fst ` set (kv_insert k v es). k' < x"
        by (auto dest!: keys_kv_insert)
      with False ne Cons.IH[OF srt] show ?thesis by (auto simp: e)
    qed
  qed
qed

text \<open>
  The operations of the store keep its keys in strictly ascending order, so every store
  that starts empty has them so.
\<close>

lemma store_ops_sorted:
  assumes "sorted_wrt (<) (map fst (entries s))"
  shows "sorted_wrt (<) (map fst (entries (snd (kv_Set s k v sy))))"
    and "sorted_wrt (<) (map fst (entries (snd (kv_RangeDelete s a b sy))))"
    and "sorted_wrt (<) (map fst (entries (snd (kv_Sync s))))"
proof -
  show "sorted_wrt (<) (map fst (entries (snd (kv_Set s k v sy))))"
    using assms sorted_kv_insert[OF assms, of k v] by (simp add: kv_Set_simps)
  have "map fst (filter (\<lambda>(k, v). \<not> (a \<le> k \<and> k < b)) (entries s)) =
      filter (\<lambda>k. \<not> (a \<le> k \<and> k < b)) (map fst (entries s))"
    by (simp add: filter_map comp_def case_prod_unfold)
  then show "sorted_wrt (<) (map fst (entries (snd (kv_RangeDelete s a b sy))))"
    using assms by (simp add: kv_RangeDelete_simps sorted_wrt_filter)
  show "sorted_wrt (<) (map fst (entries (snd (kv_Sync s))))"
    using assms by (simp add: kv_Sync_simps)
qed

lemma fault_in_take_Suc:
  "True \<in> set (take (Suc n) fl) \<longleftrightarrow>
     (case fl of [] \<Rightarrow> False | b # fl' \<Rightarrow> b) \<or> True \<in> set (take n (tl fl))"
  by (cases fl) auto

lemma fault_in_take_snoc:
  "True \<in> set (take (Suc n) fl) \<longleftrightarrow>
     True \<in> set (take n fl) \<or> (case drop n fl of [] \<Rightarrow> False | b # fl' \<Rightarrow> b)"
proof -
  have "take (Suc n) fl = take n fl @ take 1 (drop n fl)"
    using take_add[of n 1 fl] by simp
  then show ?thesis
    by (cases "drop n fl") auto
qed

lemma set_issued_subset: "set (issued fl ops) \<subseteq> set ops"
  by (induction fl ops rule: issued.induct) auto

lemma issued_Nil [simp]: "issued [] ops = ops"
  by (cases ops) auto

lemma issued_append:
  "issued fl (xs @ ys) =
     (if True \<in> set (take (length xs) fl) then issued fl xs
      else xs @ issued (drop (length xs) fl) ys)"
proof (induction xs arbitrary: fl)
  case Nil show ?case by simp
next
  case (Cons x xs)
  show ?case by (cases fl) (auto simp: Cons.IH)
qed

lemma issued_no_fault:
  "True \<notin> set (take (length xs) fl) \<Longrightarrow> issued fl xs = xs"
  using issued_append[of fl xs "[]"] by simp

lemma issued_single [simp]: "issued fl [oper] = [oper]"
  by (cases fl) auto

lemma apply_sets_issued:
  assumes "nonempty_entries body"
  shows "oplog (snd (apply_sets s body)) =
           oplog s @ issued (faults s) (map (\<lambda>(k, v). OpSet k v False) body) \<and>
         fst (apply_sets s body) =
           (if True \<in> set (take (length body) (faults s)) then Some StoreError else None) \<and>
         (True \<notin> set (take (length body) (faults s)) \<longrightarrow>
            faults (snd (apply_sets s body)) = drop (length body) (faults s))"
  using assms
proof (induction body arbitrary: s)
  case Nil show ?case by simp
next
  case (Cons e body)
  obtain k v where e: "e = (k, v)" by (cases e)
  from Cons.prems have ne: "k \<noteq> []" "v \<noteq> []" and nb: "nonempty_entries body"
    by (simp_all add: nonempty_entries_def e)
  let ?s1 = "snd (kv_Set s k v False)"
  note set = kv_Set_simps[of s k v False]
  show ?case
  proof (cases "failing s")
    case True
    then have "apply_sets s ((k, v) # body) = (Some StoreError, ?s1)"
      using ne set(1) by (cases "kv_Set s k v False") auto
    then show ?thesis
      using True set by (simp add: e issued_Cons failing_def fault_in_take_Suc)
  next
    case False
    then have "apply_sets s ((k, v) # body) = apply_sets ?s1 body"
      using ne set(1) by (cases "kv_Set s k v False") auto
    then show ?thesis
      using False set Cons.IH[OF nb, of ?s1]
      by (simp add: e issued_Cons failing_def fault_in_take_Suc drop_Suc)
  qed
qed

lemma apply_parsed_issued:
  assumes "start \<noteq> []" and "end' \<noteq> []" and "nonempty_entries body"
  shows "oplog (snd (apply_parsed s start end' aik aiv mk mv body)) =
           oplog s @ issued (faults s) (apply_ops start end' aik aiv mk mv body) \<and>
         fst (apply_parsed s start end' aik aiv mk mv body) =
           (if True \<in> set (take (4 + length body) (faults s)) then Some StoreError else None)"
proof -
  let ?s1 = "snd (kv_RangeDelete s start end' False)"
  let ?s2 = "snd (kv_Set ?s1 aik aiv False)"
  let ?s3 = "snd (kv_Set ?s2 mk mv False)"
  let ?s4 = "snd (apply_sets ?s3 body)"
  let ?sets = "map (\<lambda>(k, v). OpSet k v False) body"
  let ?n = "length body"
  note rd = kv_RangeDelete_simps[of s start end' False]
  note s1 = kv_Set_simps[of ?s1 aik aiv False]
  note s2 = kv_Set_simps[of ?s2 mk mv False]
  note lp = apply_sets_issued[OF assms(3), of ?s3]
  note sy = kv_Sync_simps[of ?s4]
  have unf: "apply_parsed s start end' aik aiv mk mv body =
      (if failing s then (Some StoreError, ?s1)
       else if failing ?s1 then (Some StoreError, ?s2)
       else if failing ?s2 then (Some StoreError, ?s3)
       else if fst (apply_sets ?s3 body) \<noteq> None then apply_sets ?s3 body
       else kv_Sync ?s4)"
    using assms(1,2) rd(1) s1(1) s2(1)
    by (auto simp: apply_parsed_def split: prod.splits option.splits)
  have f1: "faults ?s1 = tl (faults s)" and f2: "faults ?s2 = tl (faults ?s1)"
    and f3: "faults ?s3 = tl (faults ?s2)"
    by (simp_all add: rd s1 s2)
  have any: "True \<in> set (take (4 + ?n) (faults s)) \<longleftrightarrow>
      failing s \<or> failing ?s1 \<or> failing ?s2 \<or> True \<in> set (take (Suc ?n) (faults ?s3))"
  proof -
    have "4 + ?n = Suc (Suc (Suc (Suc ?n)))" by simp
    then show ?thesis
      unfolding failing_def f3 f2 f1
      by (simp only: fault_in_take_Suc[of "Suc (Suc (Suc ?n))"]
          fault_in_take_Suc[of "Suc (Suc ?n)" "tl (faults s)"]
          fault_in_take_Suc[of "Suc ?n" "tl (tl (faults s))"])
  qed
  have ops: "issued (faults s) (apply_ops start end' aik aiv mk mv body) =
      OpRangeDelete start end' False #
        (if failing s then []
         else OpSet aik aiv False #
           (if failing ?s1 then []
            else OpSet mk mv False #
              (if failing ?s2 then [] else issued (faults ?s3) (?sets @ [OpSync]))))"
    unfolding apply_ops_def failing_def f3 f2 f1
    by (simp add: issued_Cons)
  have tail: "issued (faults ?s3) (?sets @ [OpSync]) =
      (if True \<in> set (take ?n (faults ?s3)) then issued (faults ?s3) ?sets
       else ?sets @ [OpSync])"
    by (simp add: issued_append)
  consider (a) "failing s" | (b) "\<not> failing s" "failing ?s1"
    | (c) "\<not> failing s" "\<not> failing ?s1" "failing ?s2"
    | (d) "\<not> failing s" "\<not> failing ?s1" "\<not> failing ?s2" "fst (apply_sets ?s3 body) \<noteq> None"
    | (e) "\<not> failing s" "\<not> failing ?s1" "\<not> failing ?s2" "fst (apply_sets ?s3 body) = None"
    by blast
  then show ?thesis
  proof cases
    case a
    then show ?thesis
      unfolding unf any ops by (simp add: rd)
  next
    case b
    then show ?thesis
      unfolding unf any ops by (simp add: rd s1)
  next
    case c
    then show ?thesis
      unfolding unf any ops by (simp add: rd s1 s2)
  next
    case d
    then have t: "True \<in> set (take ?n (faults ?s3))"
      using lp by (auto split: if_splits)
    then have t': "True \<in> set (take (Suc ?n) (faults ?s3))"
      by (simp only: fault_in_take_snoc) simp
    have "fst (apply_sets ?s3 body) = Some StoreError"
      using lp t by simp
    moreover have "oplog ?s4 = oplog s @ issued (faults s) (apply_ops start end' aik aiv mk mv body)"
      using d t lp unfolding ops tail by (simp add: rd s1 s2)
    ultimately show ?thesis
      using d t' unfolding unf any by (simp add: split_beta)
  next
    case e
    then have nf: "True \<notin> set (take ?n (faults ?s3))"
      using lp by (auto split: if_splits)
    then have f4: "faults ?s4 = drop ?n (faults ?s3)"
      using lp by simp
    have fl: "True \<in> set (take (Suc ?n) (faults ?s3)) \<longleftrightarrow> failing ?s4"
      using nf by (simp only: fault_in_take_snoc failing_def f4) simp
    have sets: "issued (faults ?s3) ?sets = ?sets"
      using nf by (simp add: issued_no_fault)
    have "oplog (snd (kv_Sync ?s4)) =
        oplog s @ issued (faults s) (apply_ops start end' aik aiv mk mv body)"
      using e nf lp sets unfolding ops tail by (simp add: sy rd s1 s2)
    moreover have "fst (kv_Sync ?s4) =
        (if True \<in> set (take (4 + ?n) (faults s)) then Some StoreError else None)"
      using e fl unfolding any by (simp add: sy)
    ultimately show ?thesis
      using e unfolding unf by simp
  qed
qed

lemma issued_last_no_fault:
  "True \<notin> set (take (length pre) fl) \<Longrightarrow> issued fl (pre @ [x]) = pre @ [x]"
  by (simp add: issued_append)

lemma OpSync_issued:
  assumes "OpSync \<notin> set pre"
  shows "OpSync \<in> set (issued fl (pre @ [OpSync])) \<longleftrightarrow> True \<notin> set (take (length pre) fl)"
  using assms set_issued_subset[of fl pre] by (auto simp: issued_append)

lemma ApplySnapshot_loop_issued:
  assumes "ApplySnapshot_loop f s = Some y"
  shows "loop_trace s y"
proof (rule ApplySnapshot_loop.raw_induct[where P = "\<lambda>f s y. loop_trace s y", OF _ assms])
  fix loop :: "rfile \<Rightarrow> kvstore \<Rightarrow> (error option \<times> kvstore) option" and f s y
  assume IH': "\<And>f s y. loop f s = Some y \<Longrightarrow> loop_trace s y"
    and hyp: "(case readBytes f of
        None \<Rightarrow> None
      | Some (Inl err, f1) \<Rightarrow> Some (Some err, s)
      | Some (Inr key, f1) \<Rightarrow>
          if len key = 0 then Some (None, s)
          else
            (case readBytes f1 of
               None \<Rightarrow> None
             | Some (Inl err, f2) \<Rightarrow> Some (Some err, s)
             | Some (Inr value, f2) \<Rightarrow>
                 if len value = 0
                 then Some (Some (FormatError ''error format, missing value field''), s)
                 else
                   (case kv_Set s (slice_bytes key) (slice_bytes value) False of
                      (Some err, s1) \<Rightarrow> Some (Some err, s1)
                    | (None, s1) \<Rightarrow> loop f2 s1))) = Some y"
  have IH: "\<And>f s r s'. loop f s = Some (r, s') \<Longrightarrow>
     \<exists>body. oplog s' = oplog s @ issued (faults s) (map (\<lambda>(k, v). OpSet k v False) body) \<and>
            (r = None \<longrightarrow> True \<notin> set (take (length body) (faults s)) \<and>
                          faults s' = drop (length body) (faults s))"
    using IH'[unfolded loop_trace_def] by fastforce
  obtain r s' where y: "y = (r, s')" by (cases y)
  note hyp2 = hyp[unfolded y]
  have nil: "\<exists>body. oplog s = oplog s @ issued (faults s) (map (\<lambda>(k, v). OpSet k v False) body) \<and>
           (rr = None \<longrightarrow> True \<notin> set (take (length body) (faults s)) \<and>
                          faults s = drop (length body) (faults s))" for rr
    by (rule exI[of _ "[]"]) simp
  have "\<exists>body. oplog s' =
              oplog s @ issued (faults s) (map (\<lambda>(k, v). OpSet k v False) body) \<and>
            (r = None \<longrightarrow> True \<notin> set (take (length body) (faults s)) \<and>
                          faults s' = drop (length body) (faults s))"
  proof (cases "readBytes f")
    case None
    with hyp2 show ?thesis by simp
  next
    case (Some a)
    obtain res f1 where a: "a = (res, f1)" by (cases a)
    show ?thesis
    proof (cases res)
      case (Inl err)
      with hyp2 Some a nil show ?thesis by auto
    next
      case (Inr key)
      show ?thesis
      proof (cases "len key = 0")
        case True
        with hyp2 Some a Inr nil show ?thesis by auto
      next
        case False
        note k = this
        show ?thesis
        proof (cases "readBytes f1")
          case None
          with hyp2 Some a Inr k show ?thesis by simp
        next
          case (Some b)
          note rb = this
          obtain res2 f2 where b: "b = (res2, f2)" by (cases b)
          show ?thesis
          proof (cases res2)
            case (Inl err)
            with hyp2 \<open>readBytes f = Some a\<close> a Inr k rb b nil show ?thesis by auto
          next
            case (Inr val)
            note v = this
            show ?thesis
            proof (cases "len val = 0")
              case True
              with hyp2 \<open>readBytes f = Some a\<close> a \<open>res = Inr key\<close> k rb b v nil
              show ?thesis by auto
            next
              case False
              let ?k = "slice_bytes key" and ?v = "slice_bytes val"
              obtain e1 s1 where kv: "kv_Set s ?k ?v False = (e1, s1)"
                by (cases "kv_Set s ?k ?v False")
              have st: "e1 = (if failing s then Some StoreError else None)"
                "oplog s1 = oplog s @ [OpSet ?k ?v False]" "faults s1 = tl (faults s)"
                using kv_Set_simps[of s ?k ?v False] by (simp_all add: kv)
              have body: "(case (e1, s1) of
                      (Some err, s1) \<Rightarrow> Some (Some err, s1)
                    | (None, s1) \<Rightarrow> loop f2 s1) = Some (r, s')"
                using hyp2 \<open>readBytes f = Some a\<close> a \<open>res = Inr key\<close> k rb b v False
                by (simp add: kv)
              show ?thesis
              proof (cases "failing s")
                case True
                with body st(1) have "r = Some StoreError" "s' = s1" by auto
                then show ?thesis
                  using st by (intro exI[of _ "[(?k, ?v)]"]) simp
              next
                case False
                with body st(1) have "loop f2 s1 = Some (r, s')" by simp
                from IH[OF this] obtain body' where
                  b': "oplog s' = oplog s1 @ issued (faults s1) (map (\<lambda>(k, v). OpSet k v False) body')"
                    "r = None \<longrightarrow> True \<notin> set (take (length body') (faults s1)) \<and>
                          faults s' = drop (length body') (faults s1)"
                  by blast
                show ?thesis
                  using b' False st
                  by (intro exI[of _ "(?k, ?v) # body'"])
                     (simp add: issued_Cons failing_def fault_in_take_Suc drop_Suc)
              qed
            qed
          qed
        qed
      qed
    qed
  qed
  then show "loop_trace s y" by (simp add: y loop_trace_def)
qed

lemma order_keptI:
  assumes "oplog (snd y) = oplog s @ issued (faults s) (take n (apply_ops a b c d e g body))"
    and "fst y = None \<Longrightarrow> oplog (snd y) = oplog s @ apply_ops a b c d e g body"
  shows "order_kept s y"
  unfolding order_kept_def
  apply (rule exI[of _ a], rule exI[of _ b], rule exI[of _ c], rule exI[of _ d])
  apply (rule exI[of _ e], rule exI[of _ g], rule exI[of _ body], rule exI[of _ n])
  using assms by simp

lemma order_kept_unchanged: "order_kept s (Some e, s)"
  unfolding order_kept_def
  by (intro exI[of _ "[]"] exI[of _ "0::nat"]) simp

lemma ApplySnapshot_file_cases:
  assumes "ApplySnapshot_file s f = Some y"
  shows "(\<exists>e. y = (Some e, s)) \<or>
         (\<exists>start end' aik aiv mk mv f6.
            ApplySnapshot_writes s f6 start end' aik aiv mk mv = Some y)"
  using assms unfolding ApplySnapshot_file_def
  by (auto split: option.splits sum.splits prod.splits if_splits)

lemma ApplySnapshot_writes_order:
  assumes "ApplySnapshot_writes s f start end' aik aiv mk mv = Some y"
  shows "order_kept s y"
proof -
  let ?s1 = "snd (kv_RangeDelete s start end' False)"
  let ?s2 = "snd (kv_Set ?s1 aik aiv False)"
  let ?s3 = "snd (kv_Set ?s2 mk mv False)"
  let ?hd = "[OpRangeDelete start end' False, OpSet aik aiv False, OpSet mk mv False]"
  note rd = kv_RangeDelete_simps[of s start end' False]
  note s1 = kv_Set_simps[of ?s1 aik aiv False]
  note s2 = kv_Set_simps[of ?s2 mk mv False]
  have f1: "faults ?s1 = tl (faults s)" and f2: "faults ?s2 = tl (faults ?s1)"
    and f3: "faults ?s3 = tl (faults ?s2)"
    by (simp_all add: rd s1 s2)
  have unf: "ApplySnapshot_writes s f start end' aik aiv mk mv =
      (if failing s then Some (Some StoreError, ?s1)
       else if failing ?s1 then Some (Some StoreError, ?s2)
       else if failing ?s2 then Some (Some StoreError, ?s3)
       else (case ApplySnapshot_loop f ?s3 of None \<Rightarrow> None
             | Some (Some err, s4) \<Rightarrow> Some (Some err, s4)
             | Some (None, s4) \<Rightarrow> Some (kv_Sync s4)))"
    using rd(1) s1(1) s2(1)
    by (auto simp: ApplySnapshot_writes_def split: prod.splits option.splits if_splits)
  have hd_ops: "issued (faults s) (?hd @ rest) =
      OpRangeDelete start end' False #
        (if failing s then []
         else OpSet aik aiv False #
           (if failing ?s1 then []
            else OpSet mk mv False #
              (if failing ?s2 then [] else issued (faults ?s3) rest)))" for rest
    unfolding failing_def f3 f2 f1 by (simp add: issued_Cons)
  have tk: "take (3 + length body) (apply_ops start end' aik aiv mk mv body) =
      ?hd @ map (\<lambda>(k, v). OpSet k v False) body" for body
    by (simp add: apply_ops_def numeral_3_eq_3)
  have tk1: "take (Suc 0) (apply_ops start end' aik aiv mk mv []) =
       [OpRangeDelete start end' False]"
    "take (Suc (Suc 0)) (apply_ops start end' aik aiv mk mv []) =
       [OpRangeDelete start end' False, OpSet aik aiv False]"
    "take (Suc (Suc (Suc 0))) (apply_ops start end' aik aiv mk mv []) = ?hd"
    by (simp_all add: apply_ops_def)
  consider (a) "failing s" | (b) "\<not> failing s" "failing ?s1"
    | (c) "\<not> failing s" "\<not> failing ?s1" "failing ?s2"
    | (d) "\<not> failing s" "\<not> failing ?s1" "\<not> failing ?s2"
    by blast
  then show ?thesis
  proof cases
    case a
    with assms unf have y: "y = (Some StoreError, ?s1)" by simp
    show ?thesis
      unfolding y
      proof (rule order_keptI[where n = "Suc 0" and body = "[]" and a = start and b = end' and c = aik
            and d = aiv and e = mk and g = mv])
      qed (use a in \<open>simp_all add: tk1 rd\<close>)
  next
    case b
    with assms unf have y: "y = (Some StoreError, ?s2)" by simp
    show ?thesis
      unfolding y
      proof (rule order_keptI[where n = "Suc (Suc 0)" and body = "[]" and a = start and b = end' and c = aik
            and d = aiv and e = mk and g = mv])
      qed (use b in \<open>simp_all add: tk1 rd s1 issued_Cons failing_def f1\<close>)
  next
    case c
    with assms unf have y: "y = (Some StoreError, ?s3)" by simp
    show ?thesis
      unfolding y
      proof (rule order_keptI[where n = "Suc (Suc (Suc 0))" and body = "[]" and a = start and b = end' and c = aik
            and d = aiv and e = mk and g = mv])
      qed (use c hd_ops[of "[]"] in \<open>simp_all add: tk1 rd s1 s2\<close>)
  next
    case d
    with assms unf obtain r4 s4 where lp: "ApplySnapshot_loop f ?s3 = Some (r4, s4)"
      by (cases "ApplySnapshot_loop f ?s3") auto
    from ApplySnapshot_loop_issued[OF lp] obtain body where
      b1: "oplog s4 = oplog ?s3 @ issued (faults ?s3) (map (\<lambda>(k, v). OpSet k v False) body)"
      and b2: "r4 = None \<Longrightarrow> True \<notin> set (take (length body) (faults ?s3))"
      by (auto simp: loop_trace_def)
    have log3: "oplog ?s3 = oplog s @ ?hd"
      by (simp add: rd s1 s2)
    have pre: "oplog s4 = oplog s @ issued (faults s)
        (take (3 + length body) (apply_ops start end' aik aiv mk mv body))"
      unfolding tk hd_ops using d b1 log3 by simp
    show ?thesis
    proof (cases r4)
      case (Some e)
      with assms unf d lp have y: "y = (Some e, s4)" by simp
      show ?thesis
        unfolding y
        proof (rule order_keptI[where n = "3 + length body" and body = body and a = start
              and b = end' and c = aik and d = aiv and e = mk and g = mv])
      qed (use pre in \<open>simp_all\<close>)
    next
      case None
      with assms unf d lp have y: "y = kv_Sync s4" by simp
      have sets: "issued (faults ?s3) (map (\<lambda>(k, v). OpSet k v False) body) =
          map (\<lambda>(k, v). OpSet k v False) body"
        using b2[OF None] by (simp add: issued_no_fault)
      have all: "issued (faults s) (apply_ops start end' aik aiv mk mv body) =
          apply_ops start end' aik aiv mk mv body"
        using hd_ops[of "map (\<lambda>(k, v). OpSet k v False) body @ [OpSync]"] d b2[OF None]
        by (simp add: apply_ops_def issued_append)
      have log: "oplog (snd (kv_Sync s4)) = oplog s @ apply_ops start end' aik aiv mk mv body"
        using b1 log3 sets by (simp add: kv_Sync_simps apply_ops_def)
      show ?thesis
        unfolding y
        proof (rule order_keptI[where n = "4 + length body" and body = body and a = start
              and b = end' and c = aik and d = aiv and e = mk and g = mv])
      qed (use log all in \<open>simp_all add: apply_ops_def\<close>)
    qed
  qed
qed

lemma ApplySnapshot_order_kept:
  assumes "ApplySnapshot s fs shardID path = Some y"
  shows "order_kept s y"
proof (cases "fs_Open fs (PathJoin path ''db.data'')")
  case (Inl e)
  with assms show ?thesis by (auto simp: ApplySnapshot_def order_kept_unchanged)
next
  case (Inr f)
  with assms have "ApplySnapshot_file s f = Some y" by (simp add: ApplySnapshot_def)
  from ApplySnapshot_file_cases[OF this] show ?thesis
    using ApplySnapshot_writes_order order_kept_unchanged by blast
qed

text \<open>
  Claim C6. In every run of \<^verbatim>\<open>ApplySnapshot\<close> that returns, whatever the file holds
  and whatever fails, the operations issued to the store are an initial part of: the
  range delete of \<open>[start, end)\<close>, the set of the applied-index record, the set of the
  metadata record, sets of body pairs, all with \<open>sync = False\<close>, and the sync; a result
  \<^verbatim>\<open>nil\<close> means that all of them were issued. On a file with a non-empty start and
  end and a body of pairs with non-empty keys and values, all blobs shorter than
  \<open>2 ^ 32\<close> bytes, read without short counts, the run returns, the body pairs set are
  those of the file in the order of the file, and the sequence is cut only after the
  first operation of the store that fails: the sync is issued exactly when none of the
  writes before it has failed and is then the last operation, and the result is \<^verbatim>\<open>nil\<close>
  exactly when no operation has failed.
\<close>

theorem ApplySnapshot_write_order:
  "(\<forall>y. ApplySnapshot s fs shardID path = Some y \<longrightarrow> order_kept s y) \<and>
   (open_fault fs = None \<and> fs_rsched fs = [] \<and>
    fs_files fs (PathJoin path ''db.data'') =
      Some (snapshot_bytes start end' aik aiv mk mv body) \<and>
    start \<noteq> [] \<and> end' \<noteq> [] \<and> short_blobs [start, end', aik, aiv, mk, mv] \<and>
    short_entries body \<and> nonempty_entries body \<longrightarrow>
      (\<exists>r s'. ApplySnapshot s fs shardID path = Some (r, s') \<and>
         oplog s' = oplog s @ issued (faults s) (apply_ops start end' aik aiv mk mv body) \<and>
         (r = None \<longleftrightarrow> True \<notin> set (take (4 + length body) (faults s))) \<and>
         (OpSync \<in> set (issued (faults s) (apply_ops start end' aik aiv mk mv body)) \<longleftrightarrow>
            True \<notin> set (take (3 + length body) (faults s))) \<and>
         (True \<notin> set (take (3 + length body) (faults s)) \<longrightarrow>
            issued (faults s) (apply_ops start end' aik aiv mk mv body) =
              apply_ops start end' aik aiv mk mv body)))"
proof (intro conjI allI impI)
  fix y assume "ApplySnapshot s fs shardID path = Some y"
  then show "order_kept s y" by (rule ApplySnapshot_order_kept)
next
  assume h: "open_fault fs = None \<and> fs_rsched fs = [] \<and>
    fs_files fs (PathJoin path ''db.data'') =
      Some (snapshot_bytes start end' aik aiv mk mv body) \<and>
    start \<noteq> [] \<and> end' \<noteq> [] \<and> short_blobs [start, end', aik, aiv, mk, mv] \<and>
    short_entries body \<and> nonempty_entries body"
  let ?pre = "[OpRangeDelete start end' False, OpSet aik aiv False, OpSet mk mv False] @
     map (\<lambda>(k, v). OpSet k v False) body"
  have ops: "apply_ops start end' aik aiv mk mv body = ?pre @ [OpSync]"
    by (simp add: apply_ops_def)
  have len: "length ?pre = 3 + length body" by simp
  have nosync: "OpSync \<notin> set ?pre" by auto
  have run: "ApplySnapshot s fs shardID path =
      Some (apply_parsed s start end' aik aiv mk mv body)"
    using h ApplySnapshot_reliable[of fs path _ s shardID] ApplySnapshot_file_parsed[of start end' aik aiv mk mv body s]
    by simp
  have iss: "oplog (snd (apply_parsed s start end' aik aiv mk mv body)) =
           oplog s @ issued (faults s) (apply_ops start end' aik aiv mk mv body) \<and>
         fst (apply_parsed s start end' aik aiv mk mv body) =
           (if True \<in> set (take (4 + length body) (faults s)) then Some StoreError else None)"
    using h by (intro apply_parsed_issued) simp_all
  have sync: "OpSync \<in> set (issued (faults s) (apply_ops start end' aik aiv mk mv body)) \<longleftrightarrow>
      True \<notin> set (take (3 + length body) (faults s))"
    unfolding ops by (simp only: OpSync_issued[OF nosync] len)
  have full: "issued (faults s) (apply_ops start end' aik aiv mk mv body) =
        apply_ops start end' aik aiv mk mv body"
    if t: "True \<notin> set (take (3 + length body) (faults s))"
  proof -
    have "True \<notin> set (take (length ?pre) (faults s))"
      using t by (simp add: numeral_3_eq_3)
    then show ?thesis
      unfolding ops by (rule issued_last_no_fault)
  qed
  obtain r s' where rs: "apply_parsed s start end' aik aiv mk mv body = (r, s')"
    by (cases "apply_parsed s start end' aik aiv mk mv body")
  show "\<exists>r s'. ApplySnapshot s fs shardID path = Some (r, s') \<and>
         oplog s' = oplog s @ issued (faults s) (apply_ops start end' aik aiv mk mv body) \<and>
         (r = None \<longleftrightarrow> True \<notin> set (take (4 + length body) (faults s))) \<and>
         (OpSync \<in> set (issued (faults s) (apply_ops start end' aik aiv mk mv body)) \<longleftrightarrow>
            True \<notin> set (take (3 + length body) (faults s))) \<and>
         (True \<notin> set (take (3 + length body) (faults s)) \<longrightarrow>
            issued (faults s) (apply_ops start end' aik aiv mk mv body) =
              apply_ops start end' aik aiv mk mv body)"
    using run iss sync full unfolding rs by auto
qed

theorem ApplySnapshot_write_order_witness:
  "open_fault (fs_with snap1) = None \<and> fs_rsched (fs_with snap1) = [] \<and>
   fs_files (fs_with snap1) (PathJoin ''snap'' ''db.data'') = Some snap1 \<and>
   short_blobs [[107, 49], [107, 57], [1, 1], [0, 0, 0, 0, 0, 0, 0, 100], [2, 1, 1],
      [2, 107, 49, 107, 57]] \<and>
   short_entries body1 \<and> nonempty_entries body1 \<and>
   (\<exists>s'. ApplySnapshot store0 (fs_with snap1) 1 ''snap'' = Some (None, s') \<and>
      order_kept store0 (None, s') \<and>
      oplog s' =
        [OpRangeDelete [107, 49] [107, 57] False,
         OpSet [1, 1] [0, 0, 0, 0, 0, 0, 0, 100] False,
         OpSet [2, 1, 1] [2, 107, 49, 107, 57] False,
         OpSet [107, 50] [118, 50] False, OpSet [107, 53] [118, 53] False,
         OpSet [107, 56] [118, 56] False, OpSync]) \<and>
   (\<exists>r s'. ApplySnapshot (store0\<lparr>faults := [False, False, False, False, True]\<rparr>)
        (fs_with snap1) 1 ''snap'' = Some (r, s') \<and>
      oplog s' =
        [OpRangeDelete [107, 49] [107, 57] False,
         OpSet [1, 1] [0, 0, 0, 0, 0, 0, 0, 100] False,
         OpSet [2, 1, 1] [2, 107, 49, 107, 57] False,
         OpSet [107, 50] [118, 50] False, OpSet [107, 53] [118, 53] False] \<and>
      r \<noteq> None)"
proof -
  have f: "open_fault (fs_with snap1) = None" "fs_rsched (fs_with snap1) = []"
    "fs_files (fs_with snap1) (PathJoin ''snap'' ''db.data'') =
       Some (snapshot_bytes [107, 49] [107, 57] [1, 1] [0, 0, 0, 0, 0, 0, 0, 100]
             [2, 1, 1] [2, 107, 49, 107, 57] body1)"
    by (simp_all add: fs_with_def PathJoin_def snap1_def)
  have ne: "[107, 49 :: byte] \<noteq> []" "[107, 57 :: byte] \<noteq> []" by simp_all
  have sh: "short_blobs [[107, 49], [107, 57], [1, 1], [0, 0, 0, 0, 0, 0, 0, 100], [2, 1, 1],
      [2, 107, 49, 107, 57]]"
    by (simp add: short_blobs_def)
  have se: "short_entries body1" by (simp add: short_entries_def body1_def)
  have nb: "nonempty_entries body1" by (simp add: nonempty_entries_def body1_def)
  note w = ApplySnapshot_write_order[where fs = "fs_with snap1" and path = "''snap''"
      and start = "[107, 49]" and end' = "[107, 57]" and aik = "[1, 1]"
      and aiv = "[0, 0, 0, 0, 0, 0, 0, 100]" and mk = "[2, 1, 1]"
      and mv = "[2, 107, 49, 107, 57]" and body = body1 and shardID = 1]
  have w0: "\<exists>r s'. ApplySnapshot store0 (fs_with snap1) 1 ''snap'' = Some (r, s') \<and>
      order_kept store0 (r, s') \<and>
      oplog s' = oplog store0 @ issued (faults store0)
        (apply_ops [107, 49] [107, 57] [1, 1] [0, 0, 0, 0, 0, 0, 0, 100] [2, 1, 1]
           [2, 107, 49, 107, 57] body1) \<and>
      (r = None \<longleftrightarrow> True \<notin> set (take (4 + length body1) (faults store0)))"
    using w[of store0] f ne sh se nb by fastforce
  have w1: "\<exists>r s'. ApplySnapshot (store0\<lparr>faults := [False, False, False, False, True]\<rparr>)
        (fs_with snap1) 1 ''snap'' = Some (r, s') \<and>
      oplog s' = oplog (store0\<lparr>faults := [False, False, False, False, True]\<rparr>) @
        issued (faults (store0\<lparr>faults := [False, False, False, False, True]\<rparr>))
        (apply_ops [107, 49] [107, 57] [1, 1] [0, 0, 0, 0, 0, 0, 0, 100] [2, 1, 1]
           [2, 107, 49, 107, 57] body1) \<and>
      (r = None \<longleftrightarrow> True \<notin> set (take (4 + length body1)
         (faults (store0\<lparr>faults := [False, False, False, False, True]\<rparr>))))"
    using w[of "store0\<lparr>faults := [False, False, False, False, True]\<rparr>"] f ne sh se nb
    by fastforce
  show ?thesis
    using w0 w1 f sh se nb
    by (simp add: apply_ops_def store0_def body1_def snap1_def)
qed

section \<open>Properties of the snapshot extractor\<close>

lemma within_range_bounds: "within (range_bounds start end') k = in_range start end' k"
  by (auto simp: within_def range_bounds_def in_range_def)

lemma file_Write_success:
  "file_Write f p = (None, f') \<Longrightarrow> wdata f' = wdata f @ p"
  by (auto simp: file_Write_def split: list.splits option.splits)

lemma writeBytes_success:
  "writeBytes f d = (None, f') \<Longrightarrow> wdata f' = wdata f @ frame d"
  by (auto simp: writeBytes_def Let_def frame_def split: prod.splits option.splits
      dest!: file_Write_success)

lemma writeAll_success:
  "writeAll f bs = (None, f') \<Longrightarrow> wdata f' = wdata f @ concat (map frame bs)"
proof (induction bs arbitrary: f)
  case Nil then show ?case by simp
next
  case (Cons b bs)
  then show ?case
    by (auto split: prod.splits option.splits dest!: writeBytes_success)
qed

lemma CreateSnapshot_loop_success:
  "CreateSnapshot_loop e ierr it f = (None, f') \<Longrightarrow>
     wdata f' = wdata f @ body_bytes (takeWhile (\<lambda>(k, v). \<not> (length e > 0 \<and> k \<ge> e)) it)"
proof (induction it arbitrary: f)
  case Nil then show ?case by (simp add: body_bytes_def)
next
  case (Cons x it)
  obtain k v where x: "x = (k, v)" by (cases x)
  show ?case
  proof (cases "length e > 0 \<and> k \<ge> e")
    case True
    with Cons.prems show ?thesis
      by (auto simp: x body_bytes_def split: option.splits)
  next
    case False
    from Cons.prems False obtain f1 f2 where
      w: "writeBytes f k = (None, f1)" "writeBytes f1 v = (None, f2)"
         "CreateSnapshot_loop e ierr it f2 = (None, f')"
      by (auto simp: x split: option.splits prod.splits)
    from Cons.IH[OF w(3)] writeBytes_success[OF w(1)] writeBytes_success[OF w(2)] False
    show ?thesis by (simp add: x body_bytes_def)
  qed
qed

lemma takeWhile_guard_range:
  "takeWhile (\<lambda>(k, v). \<not> (length e > 0 \<and> k \<ge> e))
     (filter (\<lambda>(k, v). within (range_bounds st e) k) es) =
   filter (\<lambda>(k, v). within (range_bounds st e) k) es"
  by (auto simp: within_def range_bounds_def)

lemma CreateSnapshot_file_success:
  assumes "CreateSnapshot_file c s shardID f = (Inr idx, f')"
  shows "\<exists>aiv mk mv start end'.
           map_of (entries s) (GetAppliedIndexKey c shardID) = Some aiv \<and>
           getShardMetadata c (GetView s) shardID = Inr (mk, mv) \<and>
           MustUnmarshal c mv = Some (start, end') \<and>
           Byte2UInt64 aiv = Inr idx \<and>
           wdata f' = wdata f @ snapshot_bytes start end' (GetAppliedIndexKey c shardID) aiv mk mv
                        (range_entries s start end')"
proof -
  from assms obtain aik aiv where ai: "getAppliedIndex c (GetView s) shardID = Inr (aik, aiv)"
    by (auto simp: CreateSnapshot_file_def Let_def split: sum.splits)
  then have aik: "aik = GetAppliedIndexKey c shardID"
    and aiv: "map_of (entries s) (GetAppliedIndexKey c shardID) = Some aiv"
    by (auto simp: getAppliedIndex_def Let_def snap_Get_def GetView_def split: option.splits)
  from assms ai obtain mk mv where md: "getShardMetadata c (GetView s) shardID = Inr (mk, mv)"
    by (auto simp: CreateSnapshot_file_def Let_def split: sum.splits)
  from assms ai md obtain start end' where un: "MustUnmarshal c mv = Some (start, end')"
    by (auto simp: CreateSnapshot_file_def Let_def split: option.splits)
  from assms ai md un have ix: "Byte2UInt64 aiv = Inr idx"
    by (auto simp: CreateSnapshot_file_def Let_def split: sum.splits prod.splits option.splits)
  from assms ai md un ix obtain f1 where
    hd: "writeAll f [start, end', aik, aiv, mk, mv] = (None, f1)"
    and lp: "CreateSnapshot_loop end' (sn_iter_fault (GetView s))
               (snap_NewIter (GetView s) (range_bounds start end')) f1 = (None, f')"
    by (auto simp: CreateSnapshot_file_def Let_def split: sum.splits prod.splits option.splits)
  have it: "snap_NewIter (GetView s) (range_bounds start end') = range_entries s start end'"
    by (simp add: snap_NewIter_def GetView_def range_entries_def)
  have "wdata f' = wdata f1 @ body_bytes (range_entries s start end')"
    using CreateSnapshot_loop_success[OF lp]
    unfolding it range_entries_def takeWhile_guard_range .
  moreover have "wdata f1 = wdata f @ frame start @ frame end' @ frame aik @ frame aiv @
      frame mk @ frame mv"
    using writeAll_success[OF hd] by simp
  ultimately show ?thesis
    using aiv md un ix unfolding aik by (auto simp: snapshot_bytes_def)
qed

lemma CreateSnapshot_success:
  assumes "CreateSnapshot c s fs shardID path = (Inr idx, fs')"
  shows "\<exists>aiv mk mv start end'.
           map_of (entries s) (GetAppliedIndexKey c shardID) = Some aiv \<and>
           getShardMetadata c (GetView s) shardID = Inr (mk, mv) \<and>
           MustUnmarshal c mv = Some (start, end') \<and>
           Byte2UInt64 aiv = Inr idx \<and>
           fs_files fs' (PathJoin path ''db.data'') =
             Some (snapshot_bytes start end' (GetAppliedIndexKey c shardID) aiv mk mv
                     (range_entries s start end'))"
proof -
  from assms obtain f where cr: "fs_Create fs (PathJoin path ''db.data'') = Inr f"
    by (auto simp: CreateSnapshot_def Let_def split: option.splits sum.splits)
  then have f: "wdata f = []"
    by (auto simp: fs_Create_def split: option.splits)
  from assms cr obtain f1 where
    r: "CreateSnapshot_file c s shardID f = (Inr idx, f1)"
    and fs': "fs' = fs\<lparr>fs_files := (fs_files fs)(PathJoin path ''db.data'' \<mapsto> wdata f1)\<rparr>"
    by (auto simp: CreateSnapshot_def Let_def split: option.splits sum.splits prod.splits)
  from CreateSnapshot_file_success[OF r] show ?thesis
    unfolding fs' f by simp
qed

lemma writeAll_unfailing:
  "wsched f = [] \<Longrightarrow> writeAll f bs = (None, f\<lparr>wdata := wdata f @ concat (map frame bs)\<rparr>)"
  by (induction bs arbitrary: f) (simp_all add: writeBytes_unfailing)

lemma CreateSnapshot_loop_unfailing:
  "wsched f = [] \<Longrightarrow>
     CreateSnapshot_loop e None it f =
       (None, f\<lparr>wdata := wdata f @
          body_bytes (takeWhile (\<lambda>(k, v). \<not> (length e > 0 \<and> k \<ge> e)) it)\<rparr>)"
proof (induction it arbitrary: f)
  case Nil then show ?case by (simp add: body_bytes_def)
next
  case (Cons x it)
  obtain k v where x: "x = (k, v)" by (cases x)
  show ?case
    using Cons.prems
    by (simp add: x writeBytes_unfailing Cons.IH body_bytes_def)
qed

text \<open>
  With the applied-index record and the metadata record in the store, a metadata value
  that decodes, and no failure of the filesystem or of the iterators, the extractor
  succeeds and the file holds the header and the entries of the range.
\<close>

lemma CreateSnapshot_unfailing:
  assumes "mkdir_fault fs = None" and "create_fault fs = None" and "fs_wsched fs = []"
    and "iter_fault s = None"
    and "map_of (entries s) (GetAppliedIndexKey c shardID) = Some aiv"
    and "getShardMetadata c (GetView s) shardID = Inr (mk, mv)"
    and "MustUnmarshal c mv = Some (start, end')"
    and "Byte2UInt64 aiv = Inr idx"
  shows "CreateSnapshot c s fs shardID path =
           (Inr idx, fs\<lparr>fs_files := (fs_files fs)(PathJoin path ''db.data'' \<mapsto>
              snapshot_bytes start end' (GetAppliedIndexKey c shardID) aiv mk mv
                (range_entries s start end'))\<rparr>)"
proof -
  let ?f = "\<lparr>wdata = [], wsched = []\<rparr>"
  have ai: "getAppliedIndex c (GetView s) shardID = Inr (GetAppliedIndexKey c shardID, aiv)"
    using assms(5) by (simp add: getAppliedIndex_def snap_Get_def GetView_def)
  have it: "snap_NewIter (GetView s) (range_bounds start end') = range_entries s start end'"
    by (simp add: snap_NewIter_def GetView_def range_entries_def)
  have fl: "sn_iter_fault (GetView s) = None"
    using assms(4) by (simp add: GetView_def)
  let ?hdr = "frame start @ frame end' @ frame (GetAppliedIndexKey c shardID) @ frame aiv @
      frame mk @ frame mv"
  have hd: "writeAll ?f [start, end', GetAppliedIndexKey c shardID, aiv, mk, mv] =
      (None, \<lparr>wdata = ?hdr, wsched = []\<rparr>)"
    using writeAll_unfailing[of ?f "[start, end', GetAppliedIndexKey c shardID, aiv, mk, mv]"]
    by simp
  have lp: "CreateSnapshot_loop end' None (range_entries s start end')
        \<lparr>wdata = ?hdr, wsched = []\<rparr> =
      (None, \<lparr>wdata = ?hdr @ body_bytes (range_entries s start end'), wsched = []\<rparr>)"
  proof -
    have tw: "takeWhile (\<lambda>(k, v). \<not> (length end' > 0 \<and> k \<ge> end'))
        (range_entries s start end') = range_entries s start end'"
      unfolding range_entries_def by (rule takeWhile_guard_range)
    show ?thesis
      using CreateSnapshot_loop_unfailing[of "\<lparr>wdata = ?hdr, wsched = []\<rparr>" end'
          "range_entries s start end'", unfolded tw]
      by simp
  qed
  have "CreateSnapshot_file c s shardID ?f =
      (Inr idx, ?f\<lparr>wdata := snapshot_bytes start end' (GetAppliedIndexKey c shardID) aiv mk mv
                (range_entries s start end')\<rparr>)"
    using assms(6,7,8)
    by (simp add: CreateSnapshot_file_def Let_def ai it fl hd lp snapshot_bytes_def
        del: writeAll.simps)
  then show ?thesis
    using assms(1,2,3) by (simp add: CreateSnapshot_def fs_Create_def Let_def)
qed

section \<open>Range containment\<close>

lemma apply_sets_log:
  "\<exists>n. oplog (snd (apply_sets s body)) =
          oplog s @ map (\<lambda>(k, v). OpSet k v False) (take n body)"
proof (induction body arbitrary: s)
  case Nil
  show ?case by simp
next
  case (Cons e body)
  obtain k v where e: "e = (k, v)" by (cases e)
  have zero: "\<exists>n. oplog s = oplog s @ map (\<lambda>(k, v). OpSet k v False) (take n ((k, v) # body))"
    by (rule exI[of _ 0]) simp
  obtain e1 s1 where kv: "kv_Set s k v False = (e1, s1)"
    by (cases "kv_Set s k v False")
  have log: "oplog s1 = oplog s @ [OpSet k v False]"
    using kv_Set_simps(2)[of s k v False] by (simp add: kv)
  show ?case
  proof (cases "k = [] \<or> v = []")
    case True
    with zero show ?thesis by (auto simp: e)
  next
    case False
    show ?thesis
    proof (cases e1)
      case (Some err)
      then have "oplog (snd (apply_sets s ((k, v) # body))) =
          oplog s @ map (\<lambda>(k, v). OpSet k v False) (take 1 ((k, v) # body))"
        using False kv log by simp
      then show ?thesis unfolding e by (rule exI)
    next
      case None
      from Cons.IH[of s1] obtain n where
        "oplog (snd (apply_sets s1 body)) =
           oplog s1 @ map (\<lambda>(k, v). OpSet k v False) (take n body)" ..
      then have "oplog (snd (apply_sets s ((k, v) # body))) =
          oplog s @ map (\<lambda>(k, v). OpSet k v False) (take (Suc n) ((k, v) # body))"
        using False kv log None by simp
      then show ?thesis unfolding e by (rule exI)
    qed
  qed
qed

lemma apply_parsed_unfold:
  assumes "start \<noteq> []" and "end' \<noteq> []"
  shows "apply_parsed s start end' aik aiv mk mv body =
      (if failing s then (Some StoreError, snd (kv_RangeDelete s start end' False))
       else if failing (snd (kv_RangeDelete s start end' False))
         then (Some StoreError, snd (kv_Set (snd (kv_RangeDelete s start end' False)) aik aiv False))
       else if failing (snd (kv_Set (snd (kv_RangeDelete s start end' False)) aik aiv False))
         then (Some StoreError,
               snd (kv_Set (snd (kv_Set (snd (kv_RangeDelete s start end' False)) aik aiv False))
                      mk mv False))
       else if fst (apply_sets
                 (snd (kv_Set (snd (kv_Set (snd (kv_RangeDelete s start end' False)) aik aiv False))
                      mk mv False)) body) \<noteq> None
         then apply_sets
                 (snd (kv_Set (snd (kv_Set (snd (kv_RangeDelete s start end' False)) aik aiv False))
                      mk mv False)) body
       else kv_Sync (snd (apply_sets
                 (snd (kv_Set (snd (kv_Set (snd (kv_RangeDelete s start end' False)) aik aiv False))
                      mk mv False)) body)))"
  using assms kv_RangeDelete_simps(1)[of s start end' False]
    kv_Set_simps(1)[of "snd (kv_RangeDelete s start end' False)" aik aiv False]
    kv_Set_simps(1)[of "snd (kv_Set (snd (kv_RangeDelete s start end' False)) aik aiv False)"
       mk mv False]
  by (auto simp: apply_parsed_def split: prod.splits option.splits if_splits)

lemma apply_parsed_body_sets:
  "\<exists>ops. oplog (snd (apply_parsed s start end' aik aiv mk mv body)) = oplog s @ ops \<and>
     (\<forall>k v b. OpSet k v b \<in> set (drop 3 ops) \<longrightarrow> (k, v) \<in> set body) \<and>
     (ops \<noteq> [] \<longrightarrow> start \<noteq> [] \<and> end' \<noteq> [])"
proof (cases "start = [] \<or> end' = []")
  case True
  then have "snd (apply_parsed s start end' aik aiv mk mv body) = s"
    by (auto simp: apply_parsed_def)
  then show ?thesis by (intro exI[of _ "[]"]) simp
next
  case False
  then have ne: "start \<noteq> []" "end' \<noteq> []" by simp_all
  let ?s1 = "snd (kv_RangeDelete s start end' False)"
  let ?s2 = "snd (kv_Set ?s1 aik aiv False)"
  let ?s3 = "snd (kv_Set ?s2 mk mv False)"
  let ?s4 = "snd (apply_sets ?s3 body)"
  let ?hd = "[OpRangeDelete start end' False, OpSet aik aiv False, OpSet mk mv False]"
  note unf = apply_parsed_unfold[OF ne, of s aik aiv mk mv body]
  note rd = kv_RangeDelete_simps[of s start end' False]
  note s1 = kv_Set_simps[of ?s1 aik aiv False]
  note s2 = kv_Set_simps[of ?s2 mk mv False]
  from apply_sets_log[of ?s3 body] obtain n where
    lp: "oplog ?s4 = oplog ?s3 @ map (\<lambda>(k, v). OpSet k v False) (take n body)" ..
  have log3: "oplog ?s3 = oplog s @ ?hd" by (simp add: rd s1 s2)
  have mem: "OpSet k v b \<in> set (map (\<lambda>(k, v). OpSet k v False) (take n body)) \<Longrightarrow>
      (k, v) \<in> set body" for k v b
    by (auto dest: in_set_takeD)
  consider (a) "failing s" | (b) "\<not> failing s" "failing ?s1"
    | (c) "\<not> failing s" "\<not> failing ?s1" "failing ?s2"
    | (d) "\<not> failing s" "\<not> failing ?s1" "\<not> failing ?s2" "fst (apply_sets ?s3 body) \<noteq> None"
    | (e) "\<not> failing s" "\<not> failing ?s1" "\<not> failing ?s2" "fst (apply_sets ?s3 body) = None"
    by blast
  then show ?thesis
  proof cases
    case a
    then show ?thesis unfolding unf using ne
      by (intro exI[of _ "[OpRangeDelete start end' False]"]) (simp add: rd)
  next
    case b
    then show ?thesis unfolding unf using ne
      by (intro exI[of _ "[OpRangeDelete start end' False, OpSet aik aiv False]"])
         (simp add: rd s1)
  next
    case c
    then show ?thesis unfolding unf using ne
      by (intro exI[of _ ?hd]) (simp add: rd s1 s2)
  next
    case d
    then show ?thesis unfolding unf using ne lp log3 mem
      by (intro exI[of _ "?hd @ map (\<lambda>(k, v). OpSet k v False) (take n body)"]) auto
  next
    case e
    have "oplog (snd (kv_Sync ?s4)) =
        oplog s @ (?hd @ map (\<lambda>(k, v). OpSet k v False) (take n body) @ [OpSync])"
      using lp log3 by (simp add: kv_Sync_simps)
    with e show ?thesis unfolding unf using ne mem
      by (intro exI[of _ "?hd @ map (\<lambda>(k, v). OpSet k v False) (take n body) @ [OpSync]"])
         auto
  qed
qed

lemma range_entries_in_range:
  "(k, v) \<in> set (range_entries s start end') \<Longrightarrow> in_range start end' k"
  by (auto simp: range_entries_def within_range_bounds)

text \<open>
  Claim C9. Let \<^verbatim>\<open>CreateSnapshot\<close> succeed, with \<open>start\<close> and \<open>end\<close> the range decoded
  from the metadata value of the shard. The file it leaves holds the six header blobs and
  then the entries of the store in the range, so every pair recorded has a key \<open>k\<close> with
  \<open>start \<le> k\<close> and, unless the end is empty, \<open>k < end\<close>. When \<^verbatim>\<open>ApplySnapshot\<close> reads such
  a file (all blobs shorter than \<open>2 ^ 32\<close> bytes, no short counts) into any store, every
  set it issues after the range delete and the two sets of the reserved records has a key
  in \<open>[start, end)\<close>.
\<close>

theorem snapshot_range_containment:
  assumes "CreateSnapshot c s fs shardID path = (Inr idx, fs')"
    and "map_of (entries s) (GetAppliedIndexKey c shardID) = Some aiv"
    and "getShardMetadata c (GetView s) shardID = Inr (mk, mv)"
    and "MustUnmarshal c mv = Some (start, end')"
  shows "fs_files fs' (PathJoin path ''db.data'') =
           Some (snapshot_bytes start end' (GetAppliedIndexKey c shardID) aiv mk mv
                   (range_entries s start end')) \<and>
         (\<forall>(k, v) \<in> set (range_entries s start end'). in_range start end' k) \<and>
         (short_blobs [start, end', GetAppliedIndexKey c shardID, aiv, mk, mv] \<and>
          short_entries (range_entries s start end') \<and>
          open_fault fs2 = None \<and> fs_rsched fs2 = [] \<and>
          fs_files fs2 (PathJoin path2 ''db.data'') = fs_files fs' (PathJoin path ''db.data'') \<longrightarrow>
            (\<exists>r s1 ops. ApplySnapshot s0 fs2 shardID2 path2 = Some (r, s1) \<and>
               oplog s1 = oplog s0 @ ops \<and>
               (\<forall>k v b. OpSet k v b \<in> set (drop 3 ops) \<longrightarrow> start \<le> k \<and> k < end')))"
proof -
  let ?aik = "GetAppliedIndexKey c shardID"
  let ?body = "range_entries s start end'"
  from CreateSnapshot_success[OF assms(1)] assms(2,3,4)
  have created: "fs_files fs' (PathJoin path ''db.data'') =
      Some (snapshot_bytes start end' ?aik aiv mk mv ?body)"
    by auto
  have rng: "\<forall>(k, v) \<in> set ?body. in_range start end' k"
    using range_entries_in_range by auto
  have app: "\<exists>r s1 ops. ApplySnapshot s0 fs2 shardID2 path2 = Some (r, s1) \<and>
               oplog s1 = oplog s0 @ ops \<and>
               (\<forall>k v b. OpSet k v b \<in> set (drop 3 ops) \<longrightarrow> start \<le> k \<and> k < end')"
    if h: "short_blobs [start, end', ?aik, aiv, mk, mv] \<and> short_entries ?body \<and>
          open_fault fs2 = None \<and> fs_rsched fs2 = [] \<and>
          fs_files fs2 (PathJoin path2 ''db.data'') = fs_files fs' (PathJoin path ''db.data'')"
  proof -
    from h created have f2: "fs_files fs2 (PathJoin path2 ''db.data'') =
        Some (snapshot_bytes start end' ?aik aiv mk mv ?body)" by simp
    have run: "ApplySnapshot s0 fs2 shardID2 path2 =
        Some (apply_parsed s0 start end' ?aik aiv mk mv ?body)"
      using h ApplySnapshot_reliable[OF _ _ f2, of s0 shardID2]
        ApplySnapshot_file_parsed[of start end' ?aik aiv mk mv ?body s0]
      by simp
    from apply_parsed_body_sets[of s0 start end' ?aik aiv mk mv ?body] obtain ops where
      o: "oplog (snd (apply_parsed s0 start end' ?aik aiv mk mv ?body)) = oplog s0 @ ops"
        "\<And>k v b. OpSet k v b \<in> set (drop 3 ops) \<Longrightarrow> (k, v) \<in> set ?body"
        "ops \<noteq> [] \<Longrightarrow> start \<noteq> [] \<and> end' \<noteq> []"
      by blast
    have "start \<le> k \<and> k < end'" if m: "OpSet k v b \<in> set (drop 3 ops)" for k v b
    proof -
      from m have "ops \<noteq> []" by auto
      with o(3) have "end' \<noteq> []" by simp
      moreover from o(2)[OF m] have "in_range start end' k"
        by (rule range_entries_in_range)
      ultimately show ?thesis by (simp add: in_range_def)
    qed
    then show ?thesis
      using run o(1)
      by (intro exI[of _ "fst (apply_parsed s0 start end' ?aik aiv mk mv ?body)"]
          exI[of _ "snd (apply_parsed s0 start end' ?aik aiv mk mv ?body)"] exI[of _ ops])
         auto
  qed
  show ?thesis using created rng app by blast
qed

lemma getShardMetadata_store1:
  "getShardMetadata codec0 (GetView store1) 1 = Inr ([2, 1, 1], [2, 107, 49, 107, 57])"
proof -
  have "iter_fault store1 = None" by (simp add: store1_def)
  from getShardMetadata_run[OF this, of codec0 1] show ?thesis
    by (simp add: metadata_run_store1_1)
qed

lemma range_entries_store1: "range_entries store1 [107, 49] [107, 57] = body1"
  by (simp add: range_entries_def store1_def within_def range_bounds_def body1_def)

lemma CreateSnapshot_store1:
  "CreateSnapshot codec0 store1 fs0 1 ''snap'' = (Inr 100, fs_with snap1)"
proof -
  have "CreateSnapshot codec0 store1 fs0 1 ''snap'' =
      (Inr 100, fs0\<lparr>fs_files := (fs_files fs0)(PathJoin ''snap'' ''db.data'' \<mapsto>
          snapshot_bytes [107, 49] [107, 57] (GetAppliedIndexKey codec0 1)
            [0, 0, 0, 0, 0, 0, 0, 100] [2, 1, 1] [2, 107, 49, 107, 57]
            (range_entries store1 [107, 49] [107, 57]))\<rparr>)"
    by (rule CreateSnapshot_unfailing)
       (simp_all add: fs0_def getShardMetadata_store1 Byte2UInt64_def,
        simp_all add: store1_def codec0_def)
  then show ?thesis
    by (simp add: range_entries_store1 fs_with_def fs0_def snap1_def PathJoin_def codec0_def)
qed

theorem snapshot_range_containment_witness:
  "CreateSnapshot codec0 store1 fs0 1 ''snap'' = (Inr 100, fs_with snap1) \<and>
   map_of (entries store1) (GetAppliedIndexKey codec0 1) = Some [0, 0, 0, 0, 0, 0, 0, 100] \<and>
   getShardMetadata codec0 (GetView store1) 1 = Inr ([2, 1, 1], [2, 107, 49, 107, 57]) \<and>
   MustUnmarshal codec0 [2, 107, 49, 107, 57] = Some ([107, 49], [107, 57]) \<and>
   fs_files (fs_with snap1) (PathJoin ''snap'' ''db.data'') =
     Some (snapshot_bytes [107, 49] [107, 57] [1, 1] [0, 0, 0, 0, 0, 0, 0, 100] [2, 1, 1]
             [2, 107, 49, 107, 57] body1) \<and>
   in_range [107, 49] [107, 57] [107, 50] \<and> in_range [107, 49] [107, 57] [107, 53] \<and>
   in_range [107, 49] [107, 57] [107, 56] \<and>
   short_blobs [[107, 49], [107, 57], [1, 1], [0, 0, 0, 0, 0, 0, 0, 100], [2, 1, 1],
      [2, 107, 49, 107, 57]] \<and>
   short_entries body1 \<and> open_fault (fs_with snap1) = None \<and> fs_rsched (fs_with snap1) = [] \<and>
   (\<exists>r s1 ops. ApplySnapshot store0 (fs_with snap1) 1 ''snap'' = Some (r, s1) \<and>
      oplog s1 = oplog store0 @ ops \<and>
      (\<forall>k v b. OpSet k v b \<in> set (drop 3 ops) \<longrightarrow> [107, 49] \<le> k \<and> k < [107, 57]))"
proof -
  have a: "map_of (entries store1) (GetAppliedIndexKey codec0 1) = Some [0, 0, 0, 0, 0, 0, 0, 100]"
    by (simp add: store1_def codec0_def)
  have u: "MustUnmarshal codec0 [2, 107, 49, 107, 57] = Some ([107, 49], [107, 57])"
    by (simp add: codec0_def)
  have k: "GetAppliedIndexKey codec0 1 = [1, 1]" by (simp add: codec0_def)
  have sh: "short_blobs [[107, 49], [107, 57], [1, 1], [0, 0, 0, 0, 0, 0, 0, 100], [2, 1, 1],
      [2, 107, 49, 107, 57]]"
    by (simp add: short_blobs_def)
  have se: "short_entries body1" by (simp add: short_entries_def body1_def)
  have f: "open_fault (fs_with snap1) = None" "fs_rsched (fs_with snap1) = []"
    by (simp_all add: fs_with_def)
  note w = snapshot_range_containment[OF CreateSnapshot_store1 a getShardMetadata_store1 u,
      unfolded range_entries_store1 k, where ?fs2.0 = "fs_with snap1" and ?path2.0 = "''snap''"
      and ?s0.0 = store0 and ?shardID2.0 = 1]
  have r: "in_range [107, 49] [107, 57] [107, 50]" "in_range [107, 49] [107, 57] [107, 53]"
    "in_range [107, 49] [107, 57] [107, 56]"
    using w by (auto simp: body1_def)
  show ?thesis
    using w r CreateSnapshot_store1 a getShardMetadata_store1 u sh se f by simp
qed

section \<open>The round trip\<close>

lemma map_of_kv_insert: "map_of (kv_insert k v es) = (map_of es)(k \<mapsto> v)"
  by (induction es) (auto simp: fun_eq_iff)

lemma failing_no_faults: "faults s = [] \<Longrightarrow> \<not> failing s"
  by (simp add: failing_def)

lemma apply_sets_no_fault:
  assumes "faults s = []" and "nonempty_entries body"
  shows "fst (apply_sets s body) = None \<and>
         map_of (entries (snd (apply_sets s body))) = map_of (entries s) ++ map_of (rev body)"
  using assms
proof (induction body arbitrary: s)
  case Nil show ?case by simp
next
  case (Cons e body)
  obtain k v where e: "e = (k, v)" by (cases e)
  from Cons.prems have ne: "k \<noteq> []" "v \<noteq> []" and nb: "nonempty_entries body"
    by (simp_all add: nonempty_entries_def e)
  obtain e1 s1 where kv: "kv_Set s k v False = (e1, s1)" by (cases "kv_Set s k v False")
  have s1: "e1 = None" "faults s1 = []" "entries s1 = kv_insert k v (entries s)"
    using kv_Set_simps[of s k v False] failing_no_faults[OF Cons.prems(1)] Cons.prems(1)
    by (simp_all add: kv)
  have run: "apply_sets s ((k, v) # body) = apply_sets s1 body"
    using ne by (simp add: kv s1)
  have "map_of (entries s1) ++ map_of (rev body) =
      map_of (entries s) ++ map_of (rev ((k, v) # body))"
    by (auto simp: s1 map_of_kv_insert fun_eq_iff map_add_def split: option.splits)
  with Cons.IH[OF s1(2) nb] show ?case
    unfolding e run by simp
qed

lemma apply_parsed_no_fault:
  assumes "faults s = []" and "entries s = []" and "start \<noteq> []" and "end' \<noteq> []"
    and "nonempty_entries body"
  shows "fst (apply_parsed s start end' aik aiv mk mv body) = None \<and>
         map_of (entries (snd (apply_parsed s start end' aik aiv mk mv body))) =
           map_of (rev ((aik, aiv) # (mk, mv) # body))"
proof -
  let ?s1 = "snd (kv_RangeDelete s start end' False)"
  let ?s2 = "snd (kv_Set ?s1 aik aiv False)"
  let ?s3 = "snd (kv_Set ?s2 mk mv False)"
  let ?s4 = "snd (apply_sets ?s3 body)"
  note rd = kv_RangeDelete_simps[of s start end' False]
  note s1 = kv_Set_simps[of ?s1 aik aiv False]
  note s2 = kv_Set_simps[of ?s2 mk mv False]
  have f: "faults ?s1 = []" "faults ?s2 = []" "faults ?s3 = []"
    using assms(1) by (simp_all add: rd s1 s2)
  have nf: "\<not> failing s" "\<not> failing ?s1" "\<not> failing ?s2"
    using assms(1) f by (simp_all add: failing_no_faults)
  have e3: "map_of (entries ?s3) = map_of (rev [(aik, aiv), (mk, mv)])"
    using nf assms(2) by (auto simp: rd s1 s2 map_of_kv_insert fun_eq_iff map_add_def)
  note lp = apply_sets_no_fault[OF f(3) assms(5)]
  have f4: "\<not> failing ?s4"
  proof -
    have "oplog ?s4 = oplog ?s3 @ issued (faults ?s3) (map (\<lambda>(k, v). OpSet k v False) body) \<and>
         fst (apply_sets ?s3 body) =
           (if True \<in> set (take (length body) (faults ?s3)) then Some StoreError else None) \<and>
         (True \<notin> set (take (length body) (faults ?s3)) \<longrightarrow>
            faults ?s4 = drop (length body) (faults ?s3))"
      by (rule apply_sets_issued[OF assms(5)])
    then have "faults ?s4 = []" by (simp add: f(3))
    then show ?thesis by (rule failing_no_faults)
  qed
  have unf: "apply_parsed s start end' aik aiv mk mv body = kv_Sync ?s4"
    using apply_parsed_unfold[OF assms(3,4), of s aik aiv mk mv body] nf lp by simp
  have "map_of (entries ?s4) = map_of (rev ((aik, aiv) # (mk, mv) # body))"
    using lp e3 by (auto simp: fun_eq_iff map_add_def split: option.splits)
  then show ?thesis
    unfolding unf using f4 by (simp add: kv_Sync_simps)
qed

lemma getShardMetadata_loop_mem:
  "getShardMetadata_loop c shardID ierr es val key = Inr (Some v, Some k) \<Longrightarrow>
     (k, v) \<in> set es \<or> (val = Some v \<and> key = Some k)"
proof (induction es arbitrary: val key)
  case Nil then show ?case by simp
next
  case (Cons e es)
  obtain k' v' where e: "e = (k', v')" by (cases e)
  show ?case
  proof (cases "ierr = None \<and> GetShardIDFromMetadataKey c k' = Inr shardID")
    case True
    with Cons.prems have
      "getShardMetadata_loop c shardID ierr es (Some v') (Some k') = Inr (Some v, Some k)"
      by (simp add: e)
    from Cons.IH[OF this] show ?thesis by (auto simp: e)
  next
    case False
    with Cons.prems show ?thesis
      by (auto simp: e split: option.splits sum.splits if_splits)
  qed
qed

lemma getShardMetadata_mem:
  assumes "getShardMetadata c (GetView s) shardID = Inr (mk, mv)"
  shows "(mk, mv) \<in> set (entries s)"
proof -
  let ?it = "snap_NewIter (GetView s) \<lparr>LowerBound = Some (GetMetadataKey c shardID 0),
                UpperBound = None\<rparr>"
  from assms obtain val key where
    l: "getShardMetadata_loop c shardID (sn_iter_fault (GetView s)) ?it None None = Inr (val, key)"
    and r: "len val \<noteq> 0" "len key \<noteq> 0" "mk = slice_bytes key" "mv = slice_bytes val"
    by (auto simp: getShardMetadata_def Let_def split: sum.splits prod.splits if_splits)
  from r obtain k v where kv: "key = Some k" "val = Some v"
    by (cases key; cases val) auto
  from getShardMetadata_loop_mem[OF l[unfolded kv]] have "(k, v) \<in> set ?it" by simp
  then show ?thesis
    using r kv by (auto simp: snap_NewIter_def GetView_def)
qed

lemma map_of_range_entries:
  "in_range start end' k \<Longrightarrow> map_of (range_entries s start end') k = map_of (entries s) k"
proof -
  assume "in_range start end' k"
  then have "k \<in> Collect (within (range_bounds start end'))"
    by (simp add: within_range_bounds)
  moreover have "range_entries s start end' =
      filter (\<lambda>x. within (range_bounds start end') (fst x)) (entries s)"
    by (simp add: range_entries_def case_prod_unfold)
  ultimately show ?thesis
    by (simp add: map_of_filter restrict_map_def)
qed

lemma map_of_range_entries_out:
  "\<not> in_range start end' k \<Longrightarrow> map_of (range_entries s start end') k = None"
  by (auto simp: map_of_eq_None_iff range_entries_def within_range_bounds)

lemma distinct_keys:
  "sorted_wrt (<) (map fst (es :: entry list)) \<Longrightarrow> distinct (map fst es)"
  by (simp add: strict_sorted_iff)

lemma map_of_rev_distinct:
  "distinct (map fst xs) \<Longrightarrow> map_of (rev xs) = map_of xs"
  by (subst map_of_inject_set) (simp_all add: rev_map[symmetric])

text \<open>
  Claim C1, as the code has it. Let \<^verbatim>\<open>CreateSnapshot\<close> succeed on a store \<open>X\<close> with
  ascending keys, for a shard whose metadata declares a range \<open>[start, end)\<close> with both
  ends non-empty, whose entries in the range have non-empty values, all keys and values
  shorter than \<open>2 ^ 32\<close> bytes. Then \<^verbatim>\<open>ApplySnapshot\<close>, reading the file without short
  counts into an empty store \<open>Y\<close> whose operations do not fail, returns \<^verbatim>\<open>nil\<close>, and the
  store it leaves agrees with \<open>X\<close> on every key in \<open>[start, end)\<close>, on the applied-index
  key and on the metadata key.
\<close>

theorem snapshot_round_trip:
  assumes "CreateSnapshot c X fs shardID path = (Inr idx, fs')"
    and "getShardMetadata c (GetView X) shardID = Inr (mk, mv)"
    and "MustUnmarshal c mv = Some (start, end')"
    and "start \<noteq> []" and "end' \<noteq> []"
    and "length start < 2 ^ 32" and "length end' < 2 ^ 32"
    and "sorted_wrt (<) (map fst (entries X))"
    and "short_entries (entries X)"
    and "\<forall>(k, v) \<in> set (entries X). start \<le> k \<and> k < end' \<longrightarrow> v \<noteq> []"
    and "entries Y = []" and "faults Y = []"
    and "open_fault fs2 = None" and "fs_rsched fs2 = []"
    and "fs_files fs2 (PathJoin path2 ''db.data'') = fs_files fs' (PathJoin path ''db.data'')"
  shows "\<exists>Y'. ApplySnapshot Y fs2 shardID2 path2 = Some (None, Y') \<and>
           (\<forall>k. (start \<le> k \<and> k < end') \<or> k = GetAppliedIndexKey c shardID \<or> k = mk \<longrightarrow>
                  map_of (entries Y') k = map_of (entries X) k)"
proof -
  let ?aik = "GetAppliedIndexKey c shardID"
  let ?body = "range_entries X start end'"
  from CreateSnapshot_success[OF assms(1)] assms(2,3) obtain aiv where
    aiv: "map_of (entries X) ?aik = Some aiv"
    and created: "fs_files fs' (PathJoin path ''db.data'') =
      Some (snapshot_bytes start end' ?aik aiv mk mv ?body)"
    by auto
  have dist: "distinct (map fst (entries X))"
    using assms(8) by (rule distinct_keys)
  have mem_a: "(?aik, aiv) \<in> set (entries X)"
    using aiv by (rule map_of_SomeD)
  have mem_m: "(mk, mv) \<in> set (entries X)"
    using assms(2) by (rule getShardMetadata_mem)
  have mv: "map_of (entries X) mk = Some mv"
    using dist mem_m by simp
  have short: "\<And>k v. (k, v) \<in> set (entries X) \<Longrightarrow> length k < 2 ^ 32 \<and> length v < 2 ^ 32"
    using assms(9) by (auto simp: short_entries_def list_all_iff)
  have sub: "set ?body \<subseteq> set (entries X)"
    by (auto simp: range_entries_def)
  have sb: "short_blobs [start, end', ?aik, aiv, mk, mv]"
    using assms(6,7) short[OF mem_a] short[OF mem_m] by (simp add: short_blobs_def)
  have se: "short_entries ?body"
    using short sub by (auto simp: short_entries_def list_all_iff)
  have rng: "start \<le> k \<and> k < end'" if "(k, v) \<in> set ?body" for k v
    using range_entries_in_range[OF that] assms(5) by (simp add: in_range_def)
  have nb: "nonempty_entries ?body"
  proof -
    have "k \<noteq> [] \<and> v \<noteq> []" if m: "(k, v) \<in> set ?body" for k v
    proof -
      from rng[OF m] assms(4) have "k \<noteq> []" by auto
      moreover from m sub assms(10) rng[OF m] have "v \<noteq> []" by blast
      ultimately show ?thesis by simp
    qed
    then show ?thesis by (auto simp: nonempty_entries_def list_all_iff)
  qed
  have f2: "fs_files fs2 (PathJoin path2 ''db.data'') =
      Some (snapshot_bytes start end' ?aik aiv mk mv ?body)"
    using assms(15) created by simp
  have run: "ApplySnapshot Y fs2 shardID2 path2 =
      Some (apply_parsed Y start end' ?aik aiv mk mv ?body)"
    using ApplySnapshot_reliable[OF assms(13,14) f2, of Y shardID2]
      ApplySnapshot_file_parsed[OF sb se, of Y]
    by simp
  note res = apply_parsed_no_fault[OF assms(12,11,4,5) nb, of ?aik aiv mk mv]
  let ?Y' = "snd (apply_parsed Y start end' ?aik aiv mk mv ?body)"
  have dbody: "distinct (map fst ?body)"
    using sorted_range_entries[OF assms(8), of start end'] by (rule distinct_keys)
  have my: "map_of (entries ?Y') k =
      (case map_of ?body k of Some v \<Rightarrow> Some v
       | None \<Rightarrow> if k = mk then Some mv else if k = ?aik then Some aiv else None)" for k
    using res map_of_rev_distinct[OF dbody]
    by (simp add: map_add_def split: option.splits)
  have agree: "map_of (entries ?Y') k = map_of (entries X) k"
    if k: "(start \<le> k \<and> k < end') \<or> k = ?aik \<or> k = mk" for k
  proof (cases "in_range start end' k")
    case True
    show ?thesis
    proof (cases "map_of (entries X) k")
      case None
      then have "k \<noteq> mk" "k \<noteq> ?aik" using mv aiv by auto
      with None show ?thesis
        by (simp add: my map_of_range_entries[OF True])
    next
      case (Some v)
      then show ?thesis
        by (simp add: my map_of_range_entries[OF True])
    qed
  next
    case False
    then have out: "map_of ?body k = None" by (rule map_of_range_entries_out)
    from False k assms(5) have "k = ?aik \<or> k = mk" by (auto simp: in_range_def)
    then show ?thesis
      using out mv aiv by (auto simp: my)
  qed
  show ?thesis
    using run res agree
    by (intro exI[of _ ?Y']) (auto simp: prod_eq_iff)
qed

theorem snapshot_round_trip_witness:
  "CreateSnapshot codec0 store1 fs0 1 ''snap'' = (Inr 100, fs_with snap1) \<and>
   getShardMetadata codec0 (GetView store1) 1 = Inr ([2, 1, 1], [2, 107, 49, 107, 57]) \<and>
   MustUnmarshal codec0 [2, 107, 49, 107, 57] = Some ([107, 49], [107, 57]) \<and>
   sorted_wrt (<) (map fst (entries store1)) \<and> short_entries (entries store1) \<and>
   list_all (\<lambda>(k, v). v \<noteq> []) (entries store1) \<and>
   entries store0 = [] \<and> faults store0 = [] \<and>
   open_fault (fs_with snap1) = None \<and> fs_rsched (fs_with snap1) = [] \<and>
   (\<exists>Y'. ApplySnapshot store0 (fs_with snap1) 1 ''snap'' = Some (None, Y') \<and>
      map_of (entries Y') [107, 50] = Some [118, 50] \<and>
      map_of (entries Y') [107, 53] = Some [118, 53] \<and>
      map_of (entries Y') [107, 56] = Some [118, 56] \<and>
      map_of (entries Y') [107, 51] = None \<and>
      map_of (entries Y') [1, 1] = Some [0, 0, 0, 0, 0, 0, 0, 100] \<and>
      map_of (entries Y') [2, 1, 1] = Some [2, 107, 49, 107, 57])"
proof -
  have u: "MustUnmarshal codec0 [2, 107, 49, 107, 57] = Some ([107, 49], [107, 57])"
    by (simp add: codec0_def)
  have srt: "sorted_wrt (<) (map fst (entries store1))" by (simp add: store1_def)
  have sh: "short_entries (entries store1)" by (simp add: short_entries_def store1_def)
  have la: "list_all (\<lambda>(k, v). v \<noteq> []) (entries store1)" by (simp add: store1_def)
  then have ne: "\<forall>(k, v) \<in> set (entries store1). [107, 49] \<le> k \<and> k < [107, 57] \<longrightarrow> v \<noteq> []"
    by (auto simp: list_all_iff)
  have y: "entries store0 = []" "faults store0 = []" by (simp_all add: store0_def)
  have f: "open_fault (fs_with snap1) = None" "fs_rsched (fs_with snap1) = []"
    by (simp_all add: fs_with_def)
  have k: "GetAppliedIndexKey codec0 1 = [1, 1]" by (simp add: codec0_def)
  from snapshot_round_trip[OF CreateSnapshot_store1 getShardMetadata_store1 u _ _ _ _ srt sh ne
      y f refl, of 1]
  obtain Y' where Y': "ApplySnapshot store0 (fs_with snap1) 1 ''snap'' = Some (None, Y')"
    and ag: "\<And>k. ([107, 49] \<le> k \<and> k < [107, 57]) \<or> k = [1, 1] \<or> k = [2, 1, 1] \<Longrightarrow>
                map_of (entries Y') k = map_of (entries store1) k"
    unfolding k by auto
  have "map_of (entries Y') [107, 50] = Some [118, 50]"
    "map_of (entries Y') [107, 53] = Some [118, 53]"
    "map_of (entries Y') [107, 56] = Some [118, 56]"
    "map_of (entries Y') [107, 51] = None"
    "map_of (entries Y') [1, 1] = Some [0, 0, 0, 0, 0, 0, 0, 100]"
    "map_of (entries Y') [2, 1, 1] = Some [2, 107, 49, 107, 57]"
    by (subst ag; simp add: store1_def)+
  with Y' show ?thesis
    using CreateSnapshot_store1 getShardMetadata_store1 u srt sh la y f by blast
qed

text \<open>
  Claim C1 as stated fails for a shard whose range is unbounded and for a shard with an
  empty value. For the shard of \<open>store2\<close>, whose end is empty, the extractor succeeds and
  the applier rejects its file with "missing end field": the empty store stays empty and
  the key \<open>k2\<close> of the range is missing. For the shard of \<open>store3\<close> the applier stops at
  the empty value of \<open>k2\<close> with "missing value field", and the key \<open>k5\<close> of the range is
  missing from the store it leaves, which holds the two reserved records only.
\<close>

theorem snapshot_round_trip_counterexample:
  "CreateSnapshot codec0 store2 fs0 1 ''snap'' = (Inr 100, fs_with snap2) \<and>
   ApplySnapshot store0 (fs_with snap2) 1 ''snap'' =
     Some (Some (FormatError ''error format, missing end field''), store0) \<and>
   map_of (entries store2) [107, 50] = Some [118, 50] \<and>
   map_of (entries store0) [107, 50] = None \<and>
   CreateSnapshot codec0 store3 fs0 1 ''snap'' = (Inr 100, fs_with snap3) \<and>
   ApplySnapshot store0 (fs_with snap3) 1 ''snap'' =
     Some (Some (FormatError ''error format, missing value field''),
           \<lparr>entries = [([1, 1], [0, 0, 0, 0, 0, 0, 0, 100]), ([2, 1, 0], [2, 107, 49, 107, 57])],
            oplog = [OpRangeDelete [107, 49] [107, 57] False,
                     OpSet [1, 1] [0, 0, 0, 0, 0, 0, 0, 100] False,
                     OpSet [2, 1, 0] [2, 107, 49, 107, 57] False],
            faults = [], scan_fault = None, iter_fault = None\<rparr>) \<and>
   map_of (entries store3) [107, 53] = Some [118, 53] \<and>
   map_of [([1, 1 :: byte], [0, 0, 0, 0, 0, 0, 0, 100 :: byte]),
           ([2, 1, 0], [2, 107, 49, 107, 57])] [107, 53] = None"
proof -
  have i2: "iter_fault store2 = None" and i3: "iter_fault store3 = None"
    by (simp_all add: store2_def store3_def)
  have m2: "getShardMetadata codec0 (GetView store2) 1 = Inr ([2, 1, 0], [2, 107, 49])"
    using getShardMetadata_run[OF i2, of codec0 1]
    by (simp add: metadata_run_def codec0_def store2_def)
  have m3: "getShardMetadata codec0 (GetView store3) 1 = Inr ([2, 1, 0], [2, 107, 49, 107, 57])"
    using getShardMetadata_run[OF i3, of codec0 1]
    by (simp add: metadata_run_def codec0_def store3_def)
  have c2: "CreateSnapshot codec0 store2 fs0 1 ''snap'' =
      (Inr 100, fs0\<lparr>fs_files := (fs_files fs0)(PathJoin ''snap'' ''db.data'' \<mapsto>
          snapshot_bytes [107, 49] [] (GetAppliedIndexKey codec0 1)
            [0, 0, 0, 0, 0, 0, 0, 100] [2, 1, 0] [2, 107, 49]
            (range_entries store2 [107, 49] []))\<rparr>)"
    by (rule CreateSnapshot_unfailing)
       (simp_all add: fs0_def m2 i2 Byte2UInt64_def, simp_all add: store2_def codec0_def)
  have c3: "CreateSnapshot codec0 store3 fs0 1 ''snap'' =
      (Inr 100, fs0\<lparr>fs_files := (fs_files fs0)(PathJoin ''snap'' ''db.data'' \<mapsto>
          snapshot_bytes [107, 49] [107, 57] (GetAppliedIndexKey codec0 1)
            [0, 0, 0, 0, 0, 0, 0, 100] [2, 1, 0] [2, 107, 49, 107, 57]
            (range_entries store3 [107, 49] [107, 57]))\<rparr>)"
    by (rule CreateSnapshot_unfailing)
       (simp_all add: fs0_def m3 i3 Byte2UInt64_def, simp_all add: store3_def codec0_def)
  have r2: "range_entries store2 [107, 49] [] = [([107, 50], [118, 50])]"
    by (simp add: range_entries_def store2_def within_def range_bounds_def)
  have r3: "range_entries store3 [107, 49] [107, 57] = [([107, 50], []), ([107, 53], [118, 53])]"
    by (simp add: range_entries_def store3_def within_def range_bounds_def)
  have k: "GetAppliedIndexKey codec0 1 = [1, 1]" by (simp add: codec0_def)
  have C2: "CreateSnapshot codec0 store2 fs0 1 ''snap'' = (Inr 100, fs_with snap2)"
    unfolding c2 by (simp add: r2 k fs_with_def fs0_def snap2_def PathJoin_def)
  have C3: "CreateSnapshot codec0 store3 fs0 1 ''snap'' = (Inr 100, fs_with snap3)"
    unfolding c3 by (simp add: r3 k fs_with_def fs0_def snap3_def PathJoin_def)
  have f: "\<And>bs. open_fault (fs_with bs) = None" "\<And>bs. fs_rsched (fs_with bs) = []"
    "\<And>bs. fs_files (fs_with bs) (PathJoin ''snap'' ''db.data'') = Some bs"
    by (simp_all add: fs_with_def PathJoin_def)
  have A2: "ApplySnapshot store0 (fs_with snap2) 1 ''snap'' =
      Some (apply_parsed store0 [107, 49] [] [1, 1] [0, 0, 0, 0, 0, 0, 0, 100]
             [2, 1, 0] [2, 107, 49] [([107, 50], [118, 50])])"
    unfolding ApplySnapshot_reliable[OF f] snap2_def
    by (rule ApplySnapshot_file_parsed) (simp_all add: short_blobs_def short_entries_def)
  have A3: "ApplySnapshot store0 (fs_with snap3) 1 ''snap'' =
      Some (apply_parsed store0 [107, 49] [107, 57] [1, 1] [0, 0, 0, 0, 0, 0, 0, 100]
             [2, 1, 0] [2, 107, 49, 107, 57] [([107, 50], []), ([107, 53], [118, 53])])"
    unfolding ApplySnapshot_reliable[OF f] snap3_def
    by (rule ApplySnapshot_file_parsed) (simp_all add: short_blobs_def short_entries_def)
  have a2: "apply_parsed store0 [107, 49] [] [1, 1] [0, 0, 0, 0, 0, 0, 0, 100]
             [2, 1, 0] [2, 107, 49] [([107, 50], [118, 50])] =
      (Some (FormatError ''error format, missing end field''), store0)"
    by (simp add: apply_parsed_def)
  have a3: "apply_parsed store0 [107, 49] [107, 57] [1, 1] [0, 0, 0, 0, 0, 0, 0, 100]
             [2, 1, 0] [2, 107, 49, 107, 57] [([107, 50], []), ([107, 53], [118, 53])] =
      (Some (FormatError ''error format, missing value field''),
           \<lparr>entries = [([1, 1], [0, 0, 0, 0, 0, 0, 0, 100]), ([2, 1, 0], [2, 107, 49, 107, 57])],
            oplog = [OpRangeDelete [107, 49] [107, 57] False,
                     OpSet [1, 1] [0, 0, 0, 0, 0, 0, 0, 100] False,
                     OpSet [2, 1, 0] [2, 107, 49, 107, 57] False],
            faults = [], scan_fault = None, iter_fault = None\<rparr>)"
    by (simp add: apply_parsed_def kv_RangeDelete_def kv_Set_def issue_def store0_def)
  have e: "map_of (entries store2) [107, 50] = Some [118, 50]"
    "map_of (entries store0) [107, 50] = None"
    "map_of (entries store3) [107, 53] = Some [118, 53]"
    by (simp_all add: store2_def store3_def store0_def)
  show ?thesis
    unfolding A2 A3 by (simp add: C2 C3 a2 a3 e)
qed

section \<open>The errors of the extractor and the metadata lookup\<close>

lemma file_Write_error: "file_Write f p = (Some e, f') \<Longrightarrow> e = FsError"
  by (auto simp: file_Write_def split: list.splits option.splits)

lemma writeBytes_error: "writeBytes f d = (Some e, f') \<Longrightarrow> e = FsError"
  by (auto simp: writeBytes_def Let_def split: prod.splits option.splits
      dest: file_Write_error)

lemma writeAll_error: "writeAll f bs = (Some e, f') \<Longrightarrow> e = FsError"
proof (induction bs arbitrary: f)
  case Nil then show ?case by simp
next
  case (Cons b bs)
  then show ?case
    by (auto split: prod.splits option.splits dest: writeBytes_error)
qed

lemma CreateSnapshot_loop_error:
  "CreateSnapshot_loop shardEnd None it f = (Some e, f') \<Longrightarrow> e = FsError"
proof (induction it arbitrary: f)
  case Nil then show ?case by simp
next
  case (Cons x it)
  obtain k v where x: "x = (k, v)" by (cases x)
  show ?case
  proof (cases "length shardEnd > 0 \<and> k \<ge> shardEnd")
    case True
    with Cons.prems show ?thesis by (simp add: x)
  next
    case False
    obtain e1 f1 where w1: "writeBytes f k = (e1, f1)" by (cases "writeBytes f k")
    obtain e2 f2 where w2: "writeBytes f1 v = (e2, f2)" by (cases "writeBytes f1 v")
    have unf: "CreateSnapshot_loop shardEnd None ((k, v) # it) f =
        (case e1 of Some err \<Rightarrow> (Some err, f1)
         | None \<Rightarrow> (case e2 of Some err \<Rightarrow> (Some err, f2)
                    | None \<Rightarrow> CreateSnapshot_loop shardEnd None it f2))"
      using False by (auto simp: w1 w2 split: option.splits)
    show ?thesis
    proof (cases e1)
      case (Some a)
      with Cons.prems[unfolded x unf] have "e = a" by simp
      moreover have "writeBytes f k = (Some a, f1)" using w1 Some by simp
      ultimately show ?thesis using writeBytes_error by blast
    next
      case None
      note n1 = this
      show ?thesis
      proof (cases e2)
        case (Some a)
        with Cons.prems[unfolded x unf] n1 have "e = a" by simp
        moreover have "writeBytes f1 v = (Some a, f2)" using w2 Some by simp
        ultimately show ?thesis using writeBytes_error by blast
      next
        case None
        with Cons.prems[unfolded x unf] n1
        have "CreateSnapshot_loop shardEnd None it f2 = (Some e, f')" by simp
        then show ?thesis by (rule Cons.IH)
      qed
    qed
  qed
qed

lemma getAppliedIndex_result:
  "getAppliedIndex c (GetView s) shardID =
     (case map_of (entries s) (GetAppliedIndexKey c shardID) of
        None \<Rightarrow> Inl ErrNotFound
      | Some v \<Rightarrow> Inr (GetAppliedIndexKey c shardID, v))"
  by (simp add: getAppliedIndex_def snap_Get_def GetView_def Let_def split: option.splits)

text \<open>
  The error of \<^verbatim>\<open>CreateSnapshot\<close> once the file is open: the one of the applied-index
  lookup first, then the one of the metadata lookup; every later error is a panic or an
  error of the file.
\<close>

lemma CreateSnapshot_file_error:
  assumes "iter_fault s = None"
  shows "fst (CreateSnapshot_file c s shardID f) =
     (case map_of (entries s) (GetAppliedIndexKey c shardID) of
        None \<Rightarrow> Inl ErrNotFound
      | Some v \<Rightarrow>
          (case getShardMetadata c (GetView s) shardID of
             Inl err \<Rightarrow> Inl err
           | Inr m \<Rightarrow> fst (CreateSnapshot_file c s shardID f)))"
    and "getShardMetadata c (GetView s) shardID = Inr m \<Longrightarrow>
           fst (CreateSnapshot_file c s shardID f) \<noteq> Inl ErrNoMetadata"
proof -
  show "fst (CreateSnapshot_file c s shardID f) =
     (case map_of (entries s) (GetAppliedIndexKey c shardID) of
        None \<Rightarrow> Inl ErrNotFound
      | Some v \<Rightarrow>
          (case getShardMetadata c (GetView s) shardID of
             Inl err \<Rightarrow> Inl err
           | Inr m \<Rightarrow> fst (CreateSnapshot_file c s shardID f)))"
    by (simp add: CreateSnapshot_file_def Let_def getAppliedIndex_result
        split: option.splits sum.splits)
next
  assume m: "getShardMetadata c (GetView s) shardID = Inr m"
  have fl: "sn_iter_fault (GetView s) = None"
    using assms by (simp add: GetView_def)
  obtain mk mv where mkv: "m = (mk, mv)" by (cases m)
  show "fst (CreateSnapshot_file c s shardID f) \<noteq> Inl ErrNoMetadata"
  proof (cases "map_of (entries s) (GetAppliedIndexKey c shardID)")
    case None
    then show ?thesis
      by (simp add: CreateSnapshot_file_def Let_def getAppliedIndex_result)
  next
    case (Some aiv)
    note a = this
    show ?thesis
    proof (cases "MustUnmarshal c mv")
      case None
      then show ?thesis
        by (simp add: CreateSnapshot_file_def Let_def getAppliedIndex_result a m mkv)
    next
      case (Some se)
      obtain start end' where se: "se = (start, end')" by (cases se)
      note u = Some[unfolded se]
      show ?thesis
      proof (cases "Byte2UInt64 aiv")
        case (Inl err)
        then have "err = Panic" by (auto simp: Byte2UInt64_def split: if_splits)
        with Inl show ?thesis
          by (simp add: CreateSnapshot_file_def Let_def getAppliedIndex_result a m mkv u)
      next
        case (Inr idx)
        obtain e1 f1 where
          w: "writeAll f [start, end', GetAppliedIndexKey c shardID, aiv, mk, mv] = (e1, f1)"
          by (cases "writeAll f [start, end', GetAppliedIndexKey c shardID, aiv, mk, mv]")
        obtain e2 f2 where
          l: "CreateSnapshot_loop end' None
                (snap_NewIter (GetView s) (range_bounds start end')) f1 = (e2, f2)"
          by (cases "CreateSnapshot_loop end' None
                (snap_NewIter (GetView s) (range_bounds start end')) f1")
        have r: "fst (CreateSnapshot_file c s shardID f) =
            (case e1 of Some err \<Rightarrow> Inl err
             | None \<Rightarrow> (case e2 of Some err \<Rightarrow> Inl err | None \<Rightarrow> Inr idx))"
          by (simp add: CreateSnapshot_file_def Let_def getAppliedIndex_result a m mkv u Inr w l
              fl split: option.splits del: writeAll.simps)
        have "e1 = None \<or> e1 = Some FsError"
        proof (cases e1)
          case (Some a)
          with w have "writeAll f [start, end', GetAppliedIndexKey c shardID, aiv, mk, mv] =
              (Some a, f1)" by simp
          from writeAll_error[OF this] Some show ?thesis by simp
        qed simp
        moreover have "e2 = None \<or> e2 = Some FsError"
        proof (cases e2)
          case (Some a)
          with l have "CreateSnapshot_loop end' None
                (snap_NewIter (GetView s) (range_bounds start end')) f1 = (Some a, f2)" by simp
          from CreateSnapshot_loop_error[OF this] Some show ?thesis by simp
        qed simp
        ultimately show ?thesis
          unfolding r by auto
      qed
    qed
  qed
qed

lemma CreateSnapshot_opened:
  assumes "mkdir_fault fs = None" and "create_fault fs = None"
  shows "fst (CreateSnapshot c s fs shardID path) =
           fst (CreateSnapshot_file c s shardID \<lparr>wdata = [], wsched = fs_wsched fs\<rparr>)"
  using assms by (simp add: CreateSnapshot_def fs_Create_def Let_def split: prod.splits)

lemma getShardMetadata_ErrNoMetadata:
  assumes "iter_fault s = None"
  shows "getShardMetadata c (GetView s) shardID = Inl ErrNoMetadata \<longleftrightarrow>
           metadata_run c s shardID = [] \<or> snd (last (metadata_run c s shardID)) = [] \<or>
           fst (last (metadata_run c s shardID)) = []"
  unfolding getShardMetadata_run[OF assms]
  by (cases "metadata_run c s shardID") auto

lemma CreateSnapshot_error_origin:
  assumes "iter_fault s = None" and "mkdir_fault fs = None" and "create_fault fs = None"
  shows "(map_of (entries s) (GetAppliedIndexKey c shardID) = None \<longrightarrow>
            fst (CreateSnapshot c s fs shardID path) = Inl ErrNotFound) \<and>
         (fst (CreateSnapshot c s fs shardID path) = Inl ErrNoMetadata \<longleftrightarrow>
            map_of (entries s) (GetAppliedIndexKey c shardID) \<noteq> None \<and>
            getShardMetadata c (GetView s) shardID = Inl ErrNoMetadata)"
proof -
  let ?f = "\<lparr>wdata = [], wsched = fs_wsched fs\<rparr>"
  note op = CreateSnapshot_opened[OF assms(2,3), of c s shardID path]
  note e = CreateSnapshot_file_error[OF assms(1), where c = c and shardID = shardID and f = "?f"]
  show ?thesis
  proof (cases "map_of (entries s) (GetAppliedIndexKey c shardID)")
    case None
    with e(1) show ?thesis unfolding op by simp
  next
    case (Some aiv)
    show ?thesis
    proof (cases "getShardMetadata c (GetView s) shardID")
      case (Inl err)
      with e(1) Some have "fst (CreateSnapshot_file c s shardID ?f) = Inl err" by simp
      with Some Inl show ?thesis unfolding op by simp
    next
      case (Inr m)
      from e(2)[OF Inr] Some Inr show ?thesis unfolding op by simp
    qed
  qed
qed

text \<open>
  Claim C8, as the code has it. On a store whose iterators report no error,
  \<^verbatim>\<open>getShardMetadata\<close> walks the run of entries that starts at the metadata key of the
  shard and whose keys decode to the shard id; it returns the last entry of the run when
  its key and its value are not empty, and \<^verbatim>\<open>ErrNoMetadata\<close> when the run is empty or
  the key or the value of its last entry is empty. \<^verbatim>\<open>CreateSnapshot\<close>, once the
  directory and the file are created, looks the applied-index record up first: without
  that record it returns \<^verbatim>\<open>pebble.ErrNotFound\<close>, whatever the metadata; and it returns
  \<^verbatim>\<open>ErrNoMetadata\<close> exactly when the applied-index record is there and the metadata
  lookup returns \<^verbatim>\<open>ErrNoMetadata\<close>, so no panic and no error of the file is taken for
  it.
\<close>

theorem getShardMetadata_and_no_metadata:
  assumes "iter_fault s = None" and "mkdir_fault fs = None" and "create_fault fs = None"
  shows "getShardMetadata c (GetView s) shardID =
           (case metadata_run c s shardID of
              [] \<Rightarrow> Inl ErrNoMetadata
            | r # rs \<Rightarrow>
                if snd (last (r # rs)) = [] \<or> fst (last (r # rs)) = [] then Inl ErrNoMetadata
                else Inr (last (r # rs))) \<and>
         (map_of (entries s) (GetAppliedIndexKey c shardID) = None \<longrightarrow>
            fst (CreateSnapshot c s fs shardID path) = Inl ErrNotFound) \<and>
         (fst (CreateSnapshot c s fs shardID path) = Inl ErrNoMetadata \<longleftrightarrow>
            map_of (entries s) (GetAppliedIndexKey c shardID) \<noteq> None \<and>
            (metadata_run c s shardID = [] \<or> snd (last (metadata_run c s shardID)) = [] \<or>
             fst (last (metadata_run c s shardID)) = []))"
  using getShardMetadata_run[OF assms(1), of c shardID]
    CreateSnapshot_error_origin[OF assms, of c shardID path]
    getShardMetadata_ErrNoMetadata[OF assms(1), of c shardID]
  by simp

lemma metadata_run_store5:
  "metadata_run codec0 store5 1 = [([2, 1, 0], [2, 107, 49, 107, 57]), ([2, 1, 1], [])]"
  by (simp add: metadata_run_def codec0_def store5_def)

theorem getShardMetadata_and_no_metadata_witness:
  "iter_fault store1 = None \<and> iter_fault store5 = None \<and>
   mkdir_fault fs0 = None \<and> create_fault fs0 = None \<and>
   metadata_run codec0 store1 1 =
     [([2, 1, 0], [2, 107, 49, 107, 56]), ([2, 1, 1], [2, 107, 49, 107, 57])] \<and>
   getShardMetadata codec0 (GetView store1) 1 = Inr ([2, 1, 1], [2, 107, 49, 107, 57]) \<and>
   fst (CreateSnapshot codec0 store1 fs0 1 ''snap'') = Inr 100 \<and>
   fst (CreateSnapshot codec0 store1 fs0 1 ''snap'') \<noteq> Inl ErrNoMetadata \<and>
   map_of (entries store1) (GetAppliedIndexKey codec0 9) = Some [0, 0, 0, 0, 0, 0, 0, 7] \<and>
   metadata_run codec0 store1 9 = [] \<and>
   getShardMetadata codec0 (GetView store1) 9 = Inl ErrNoMetadata \<and>
   fst (CreateSnapshot codec0 store1 fs0 9 ''snap'') = Inl ErrNoMetadata \<and>
   map_of (entries store1) (GetAppliedIndexKey codec0 3) = None \<and>
   fst (CreateSnapshot codec0 store1 fs0 3 ''snap'') = Inl ErrNotFound \<and>
   map_of (entries store5) (GetAppliedIndexKey codec0 1) = Some [0, 0, 0, 0, 0, 0, 0, 100] \<and>
   metadata_run codec0 store5 1 = [([2, 1, 0], [2, 107, 49, 107, 57]), ([2, 1, 1], [])] \<and>
   getShardMetadata codec0 (GetView store5) 1 = Inl ErrNoMetadata \<and>
   fst (CreateSnapshot codec0 store5 fs0 1 ''snap'') = Inl ErrNoMetadata"
proof -
  have i: "iter_fault store1 = None" "iter_fault store5 = None"
    by (simp_all add: store1_def store5_def)
  have f: "mkdir_fault fs0 = None" "create_fault fs0 = None" by (simp_all add: fs0_def)
  have a: "map_of (entries store1) (GetAppliedIndexKey codec0 9) = Some [0, 0, 0, 0, 0, 0, 0, 7]"
    "map_of (entries store1) (GetAppliedIndexKey codec0 3) = None"
    "map_of (entries store1) (GetAppliedIndexKey codec0 1) = Some [0, 0, 0, 0, 0, 0, 0, 100]"
    "map_of (entries store5) (GetAppliedIndexKey codec0 1) = Some [0, 0, 0, 0, 0, 0, 0, 100]"
    by (simp_all add: store1_def store5_def codec0_def)
  have c1: "fst (CreateSnapshot codec0 store1 fs0 1 ''snap'') = Inr 100"
    by (simp add: CreateSnapshot_store1)
  note t1 = getShardMetadata_and_no_metadata[OF i(1) f, of codec0 1 "''snap''"]
  note t9 = getShardMetadata_and_no_metadata[OF i(1) f, of codec0 9 "''snap''"]
  note t3 = getShardMetadata_and_no_metadata[OF i(1) f, of codec0 3 "''snap''"]
  note t5 = getShardMetadata_and_no_metadata[OF i(2) f, of codec0 1 "''snap''"]
  show ?thesis
    using t1 t9 t3 t5 i f a c1
    by (simp add: metadata_run_store1_1 metadata_run_store1_9 metadata_run_store5)
qed

text \<open>
  Claim C8 as stated fails in two ways. For shard 9 of \<open>store2\<close>, which has neither an
  applied-index record nor a metadata record, \<^verbatim>\<open>CreateSnapshot\<close> returns
  \<^verbatim>\<open>pebble.ErrNotFound\<close> from the applied-index lookup, not the no-metadata error. For
  shard 1 of \<open>store5\<close> the run of metadata records is not empty, but the value of its last
  record is: \<^verbatim>\<open>getShardMetadata\<close> returns \<^verbatim>\<open>ErrNoMetadata\<close> and no record.
\<close>

theorem CreateSnapshot_no_metadata_counterexample:
  "metadata_run codec0 store2 9 = [] \<and>
   map_of (entries store2) (GetAppliedIndexKey codec0 9) = None \<and>
   fst (CreateSnapshot codec0 store2 fs0 9 ''snap'') = Inl ErrNotFound \<and>
   fst (CreateSnapshot codec0 store2 fs0 9 ''snap'') \<noteq> Inl ErrNoMetadata \<and>
   metadata_run codec0 store5 1 = [([2, 1, 0], [2, 107, 49, 107, 57]), ([2, 1, 1], [])] \<and>
   getShardMetadata codec0 (GetView store5) 1 = Inl ErrNoMetadata"
proof -
  have i: "iter_fault store2 = None" "iter_fault store5 = None"
    by (simp_all add: store2_def store5_def)
  have f: "mkdir_fault fs0 = None" "create_fault fs0 = None" by (simp_all add: fs0_def)
  have r: "metadata_run codec0 store2 9 = []"
    by (simp add: metadata_run_def codec0_def store2_def)
  have a: "map_of (entries store2) (GetAppliedIndexKey codec0 9) = None"
    by (simp add: store2_def codec0_def)
  have c: "fst (CreateSnapshot codec0 store2 fs0 9 ''snap'') = Inl ErrNotFound"
    using CreateSnapshot_error_origin[OF i(1) f, of codec0 9 "''snap''"] a by simp
  have m: "getShardMetadata codec0 (GetView store5) 1 = Inl ErrNoMetadata"
    using getShardMetadata_run[OF i(2), of codec0 1] by (simp add: metadata_run_store5)
  show ?thesis
    using r a c m by (simp add: metadata_run_store5)
qed

end
